theory Spec2Isabelle
  imports Main
begin

section \<open>JavaScript values and strings\<close>

text \<open>
  A JavaScript string is a sequence of UTF-16 code units. The operator symbols of
  \<^verbatim>\<open>main.js\<close> lie outside ASCII, so a code unit is a natural number and a string a list
  of them; \<open>ascii\<close> turns an ASCII literal into such a string.
\<close>

type_synonym uchar = nat
type_synonym ustring = "uchar list"

definition ascii :: "string \<Rightarrow> ustring" where
  "ascii s = map of_char s"

text \<open>The six canonical operator symbols and the two extra synonyms outside ASCII.\<close>

definition sym_and :: ustring where "sym_and = [8743]"     \<comment> \<open>U+2227\<close>
definition sym_or :: ustring where "sym_or = [8744]"       \<comment> \<open>U+2228\<close>
definition sym_not :: ustring where "sym_not = [172]"      \<comment> \<open>U+00AC\<close>
definition sym_xor :: ustring where "sym_xor = [8853]"     \<comment> \<open>U+2295\<close>
definition sym_imply :: ustring where "sym_imply = [8594]" \<comment> \<open>U+2192\<close>
definition sym_xnor :: ustring where "sym_xnor = [8801]"   \<comment> \<open>U+2261\<close>
definition sym_veebar :: ustring where "sym_veebar = [8891]"   \<comment> \<open>U+22BB\<close>
definition sym_odot :: ustring where "sym_odot = [8857]"       \<comment> \<open>U+2299\<close>

lemmas sym_defs = sym_and_def sym_or_def sym_not_def sym_xor_def sym_imply_def
  sym_xnor_def sym_veebar_def sym_odot_def

text \<open>
  The values the program handles: \<^verbatim>\<open>undefined\<close>, booleans and strings. \<open>to_string\<close> is
  the conversion JavaScript applies where a value is used as a property key or as the
  subject of a regular expression.
\<close>

datatype jsval = Undefined | Bool bool | Str ustring

fun to_string :: "jsval \<Rightarrow> ustring" where
  "to_string Undefined = ascii ''undefined''"
| "to_string (Bool True) = ascii ''true''"
| "to_string (Bool False) = ascii ''false''"
| "to_string (Str s) = s"

fun truthy :: "jsval \<Rightarrow> bool" where
  "truthy Undefined = False"
| "truthy (Bool b) = b"
| "truthy (Str s) = (s \<noteq> [])"

text \<open>
  \<^verbatim>\<open>key in obj\<close> also finds the members every object literal inherits from
  \<^verbatim>\<open>Object.prototype\<close>.
\<close>

definition object_prototype :: "ustring list" where
  "object_prototype = map ascii
     [''constructor'', ''__defineGetter__'', ''__defineSetter__'', ''hasOwnProperty'',
      ''__lookupGetter__'', ''__lookupSetter__'', ''isPrototypeOf'',
      ''propertyIsEnumerable'', ''toString'', ''valueOf'', ''__proto__'',
      ''toLocaleString'']"

definition inherited :: "ustring \<Rightarrow> bool" where
  "inherited k = (k \<in> set object_prototype)"

text \<open>Reading an array at an index: out of range gives \<^verbatim>\<open>undefined\<close>.\<close>

definition at_index :: "jsval list \<Rightarrow> int \<Rightarrow> jsval" where
  "at_index xs i = (if 0 \<le> i \<and> nat i < length xs then xs ! nat i else Undefined)"

section \<open>Character classes of the regular expressions\<close>

definition is_upper :: "uchar \<Rightarrow> bool" where
  "is_upper c = (65 \<le> c \<and> c \<le> 90)"

definition is_lower :: "uchar \<Rightarrow> bool" where
  "is_lower c = (97 \<le> c \<and> c \<le> 122)"

text \<open>\<^verbatim>\<open>[A-Z]\<close> under the flag \<^verbatim>\<open>i\<close>: the ASCII letters of both cases.\<close>

definition is_letter :: "uchar \<Rightarrow> bool" where
  "is_letter c = (is_upper c \<or> is_lower c)"

text \<open>\<^verbatim>\<open>[01]\<close>.\<close>

definition is_bit :: "uchar \<Rightarrow> bool" where
  "is_bit c = (c = 48 \<or> c = 49)"

text \<open>\<^verbatim>\<open>\w\<close>: letters, the ten digits and the underscore; \<^verbatim>\<open>\W\<close> is its complement.\<close>

definition is_word :: "uchar \<Rightarrow> bool" where
  "is_word c = (is_letter c \<or> (48 \<le> c \<and> c \<le> 57) \<or> c = 95)"

text \<open>\<^verbatim>\<open>\s\<close>: the white space and line terminator code units of ECMAScript.\<close>

definition is_space :: "uchar \<Rightarrow> bool" where
  "is_space c = ((9 \<le> c \<and> c \<le> 13) \<or> c = 32 \<or> c = 160 \<or> c = 5760 \<or>
     (8192 \<le> c \<and> c \<le> 8202) \<or> c = 8232 \<or> c = 8233 \<or> c = 8239 \<or> c = 8287 \<or>
     c = 12288 \<or> c = 65279)"

text \<open>
  Case folding of the flag \<^verbatim>\<open>i\<close>. Every code unit of a key of \<open>otherSymbols\<close> is either an
  ASCII character or a symbol without case variants, and a code unit outside ASCII never
  folds onto an ASCII one, so folding the ASCII lower case letters decides every
  comparison with a key.
\<close>

definition fold_case :: "uchar \<Rightarrow> uchar" where
  "fold_case c = (if is_lower c then c - 32 else c)"

section \<open>Symbol table and tokenizer\<close>

text \<open>
  \<^verbatim>\<open>otherSymbols\<close>, in the order of the object literal, which is the order of the
  alternatives in \<^verbatim>\<open>replaceRegex\<close>.
\<close>

definition otherSymbols :: "(ustring \<times> ustring) list" where
  "otherSymbols =
    [(ascii ''.'', sym_and),
     (ascii ''^'', sym_and),
     (ascii ''&'', sym_and),
     (ascii ''AND'', sym_and),
     (ascii ''+'', sym_or),
     (ascii ''|'', sym_or),
     (ascii ''OR'', sym_or),
     (ascii ''!'', sym_not),
     (ascii ''NOT'', sym_or),
     (sym_veebar, sym_xor),
     (ascii ''XOR'', sym_or),
     (ascii ''>'', sym_imply),
     (ascii ''='', sym_xnor),
     (sym_odot, sym_xnor),
     (ascii ''XNOR'', sym_xnor)]"

text \<open>\<^verbatim>\<open>exp.replace(squeezeRegex, '')\<close>: every white space character is removed.\<close>

definition squeeze :: "ustring \<Rightarrow> ustring" where
  "squeeze exp = filter (\<lambda>c. \<not> is_space c) exp"

text \<open>
  One alternative of \<^verbatim>\<open>replaceRegex\<close> at the current position: the key matches when it is
  a prefix of the text up to case; the match is the text itself, in its own case.
\<close>

fun match_key :: "ustring \<Rightarrow> ustring \<Rightarrow> bool" where
  "match_key [] text = True"
| "match_key (k # ks) [] = False"
| "match_key (k # ks) (c # cs) = (fold_case k = fold_case c \<and> match_key ks cs)"

text \<open>The alternatives are tried in order and the first that matches wins.\<close>

fun first_match :: "ustring list \<Rightarrow> ustring \<Rightarrow> ustring option" where
  "first_match [] text = None"
| "first_match (k # ks) text =
     (if match_key k text then Some (take (length k) text) else first_match ks text)"

text \<open>
  The replacement callback \<^verbatim>\<open>key => otherSymbols[key]\<close>: the lookup is by the matched
  text, exactly; a match in another case finds nothing and the callback's \<^verbatim>\<open>undefined\<close>
  is inserted as the text \<^verbatim>\<open>undefined\<close>.
\<close>

definition replacement :: "ustring \<Rightarrow> ustring" where
  "replacement key = (case map_of otherSymbols key of
       Some v \<Rightarrow> v
     | None \<Rightarrow> to_string Undefined)"

text \<open>
  \<^verbatim>\<open>.replace(replaceRegex, ...)\<close> with the flag \<^verbatim>\<open>g\<close>: scan from the left; at a match
  insert the replacement and go on behind the match (\<open>skip\<close> counts the code units of
  the match still to pass), otherwise copy one code unit.
\<close>

fun replace_from :: "nat \<Rightarrow> ustring \<Rightarrow> ustring" where
  "replace_from skip [] = []"
| "replace_from (Suc skip) (c # cs) = replace_from skip cs"
| "replace_from 0 (c # cs) =
     (case first_match (map fst otherSymbols) (c # cs) of
        Some m \<Rightarrow> replacement m @ replace_from (length m - 1) cs
      | None \<Rightarrow> c # replace_from 0 cs)"

definition replace_symbols :: "ustring \<Rightarrow> ustring" where
  "replace_symbols s = replace_from 0 s"

text \<open>The first two steps of \<^verbatim>\<open>tokenize\<close>: the normalized text.\<close>

definition normalize :: "ustring \<Rightarrow> ustring" where
  "normalize exp = replace_symbols (squeeze exp)"

text \<open>
  \<^verbatim>\<open>.match(tokenRegex)\<close> with \<^verbatim>\<open>/[A-Z]+|[01]+|\W/gi\<close>: at each position a run of letters,
  else a run of the digits 0 and 1, else one non-word character; a character that none
  of the three matches (another digit, the underscore) is passed over.
\<close>

function match_all :: "ustring \<Rightarrow> ustring list" where
  "match_all [] = []"
| "match_all (c # cs) =
     (if is_letter c then (c # takeWhile is_letter cs) # match_all (dropWhile is_letter cs)
      else if is_bit c then (c # takeWhile is_bit cs) # match_all (dropWhile is_bit cs)
      else if \<not> is_word c then [c] # match_all cs
      else match_all cs)"
  by pat_completeness auto
termination
  by (relation "measure length") (auto simp: le_imp_less_Suc length_dropWhile_le)

text \<open>\<^verbatim>\<open>String.prototype.match\<close> returns \<^verbatim>\<open>null\<close> when nothing matches.\<close>

definition tokenize :: "ustring \<Rightarrow> ustring list option" where
  "tokenize exp = (case match_all (normalize exp) of [] \<Rightarrow> None | t # ts \<Rightarrow> Some (t # ts))"

text \<open>\<^verbatim>\<open>strRegex.test\<close> (\<^verbatim>\<open>/[A-Z]+/i\<close>) and \<^verbatim>\<open>alphaNum.test\<close> (\<^verbatim>\<open>/[A-Z01]/i\<close>): not anchored.\<close>

definition strRegex_test :: "ustring \<Rightarrow> bool" where
  "strRegex_test s = list_ex is_letter s"

definition alphaNum_test :: "ustring \<Rightarrow> bool" where
  "alphaNum_test s = list_ex (\<lambda>c. is_letter c \<or> is_bit c) s"

section \<open>Conversion to postfix\<close>

datatype error =
    TypeError            \<comment> \<open>a member of \<^verbatim>\<open>null\<close> is read\<close>
  | ReferenceError       \<comment> \<open>an identifier that is not declared is read\<close>
  | Inherited_member ustring
      \<comment> \<open>a member inherited from \<^verbatim>\<open>Object.prototype\<close> is called; the model stops there\<close>

text \<open>\<^verbatim>\<open>precedence\<close>, the order of operations.\<close>

definition precedence :: "(ustring \<times> int) list" where
  "precedence =
    [(ascii ''undefined'', 7),
     (sym_not, 6),
     (ascii ''('', 5),
     (sym_imply, 4),
     (sym_xor, 3),
     (sym_xnor, 2),
     (sym_and, 1),
     (sym_or, 0)]"

text \<open>
  \<^verbatim>\<open>a <= b\<close> on the results of two lookups in \<^verbatim>\<open>precedence\<close>: \<open>None\<close> is \<^verbatim>\<open>undefined\<close>,
  which compares as NaN, and every comparison with NaN is false.
\<close>

fun js_le :: "int option \<Rightarrow> int option \<Rightarrow> bool" where
  "js_le (Some a) (Some b) = (a \<le> b)"
| "js_le _ _ = False"

text \<open>
  \<^verbatim>\<open>let top = stack.length.length - 1\<close>: \<^verbatim>\<open>stack.length\<close> is a number, a number has no member
  \<^verbatim>\<open>length\<close>, and \<^verbatim>\<open>undefined - 1\<close> is NaN. As the property key in \<^verbatim>\<open>precedence[top]\<close>
  it is the text \<^verbatim>\<open>NaN\<close>.
\<close>

definition top_key :: "ustring list \<Rightarrow> ustring" where
  "top_key stack = ascii ''NaN''"

text \<open>
  The branch for \<^verbatim>\<open>)\<close>: pop until \<^verbatim>\<open>(\<close> has been popped or \<^verbatim>\<open>pop\<close> returns \<^verbatim>\<open>undefined\<close>,
  which it does on the empty stack. The top of the stack is the end of the array.
\<close>

function close_paren :: "ustring list \<Rightarrow> ustring list \<Rightarrow> ustring list \<times> ustring list" where
  "close_paren postfix stack =
     (if stack = [] then (postfix, [])
      else if last stack = ascii ''('' then (postfix, butlast stack)
      else close_paren (postfix @ [last stack]) (butlast stack))"
  by pat_completeness auto
termination
  by (relation "measure (\<lambda>(postfix, stack). length stack)") auto

declare close_paren.simps [simp del]

text \<open>
  The body of the \<^verbatim>\<open>forEach\<close> over the tokens in the order written. In the last
  branch the loop body calls \<^verbatim>\<open>pop(stack)\<close>, and no function \<^verbatim>\<open>pop\<close> is declared: entering
  the loop raises a ReferenceError.
\<close>

definition convert_token ::
  "ustring list \<times> ustring list \<Rightarrow> ustring \<Rightarrow> error + ustring list \<times> ustring list" where
  "convert_token st token =
     (case st of (postfix, stack) \<Rightarrow>
        if alphaNum_test token then Inr (postfix @ [token], stack)
        else if token = ascii ''('' then Inr (postfix, stack @ [token])
        else if token = ascii '')'' then Inr (close_paren postfix stack)
        else if length stack = 0 then Inr (postfix, stack @ [token])
        else if js_le (map_of precedence (top_key stack)) (map_of precedence token)
          then Inl ReferenceError
        else Inr (postfix, stack @ [token]))"

fun convert_tokens ::
  "ustring list \<times> ustring list \<Rightarrow> ustring list \<Rightarrow> error + ustring list \<times> ustring list" where
  "convert_tokens st [] = Inr st"
| "convert_tokens st (token # tokens) =
     (case convert_token st token of
        Inl e \<Rightarrow> Inl e
      | Inr st' \<Rightarrow> convert_tokens st' tokens)"

text \<open>After the loop: \<^verbatim>\<open>stack.reverse(); return postfix.concat(stack)\<close>.\<close>

definition convertToPostfix :: "ustring list \<Rightarrow> error + ustring list" where
  "convertToPostfix tokens =
     (case convert_tokens ([], []) tokens of
        Inl e \<Rightarrow> Inl e
      | Inr (postfix, stack) \<Rightarrow> Inr (postfix @ rev stack))"

section \<open>Postfix evaluation\<close>

text \<open>\<^verbatim>\<open>operations1\<close> and \<^verbatim>\<open>operations2\<close>, on JavaScript values.\<close>

definition op_not :: "jsval \<Rightarrow> jsval" where
  "op_not a = Bool (\<not> truthy a)"

definition op_and :: "jsval \<Rightarrow> jsval \<Rightarrow> jsval" where
  "op_and a b = (if truthy a then b else a)"

definition op_or :: "jsval \<Rightarrow> jsval \<Rightarrow> jsval" where
  "op_or a b = (if truthy a then a else b)"

definition op_imply :: "jsval \<Rightarrow> jsval \<Rightarrow> jsval" where
  "op_imply a b = op_or (op_not a) b"

definition op_xor :: "jsval \<Rightarrow> jsval \<Rightarrow> jsval" where
  "op_xor a b = (if truthy a then op_not b else b)"

definition op_xnor :: "jsval \<Rightarrow> jsval \<Rightarrow> jsval" where
  "op_xnor a b = Bool (a = b)"

definition operations1 :: "(ustring \<times> (jsval \<Rightarrow> jsval)) list" where
  "operations1 = [(sym_not, op_not)]"

definition operations2 :: "(ustring \<times> (jsval \<Rightarrow> jsval \<Rightarrow> jsval)) list" where
  "operations2 =
    [(sym_and, op_and),
     (sym_or, op_or),
     (sym_imply, op_imply),
     (sym_xor, op_xor),
     (sym_xnor, op_xnor)]"

text \<open>\<^verbatim>\<open>conversion\<close>: the keys \<^verbatim>\<open>0\<close> and \<^verbatim>\<open>1\<close> give booleans, the keys \<^verbatim>\<open>false\<close> and \<^verbatim>\<open>true\<close> digits.\<close>

definition conversion :: "(ustring \<times> jsval) list" where
  "conversion =
    [(ascii ''0'', Bool False),
     (ascii ''1'', Bool True),
     (ascii ''false'', Str (ascii ''0'')),
     (ascii ''true'', Str (ascii ''1''))]"

text \<open>\<^verbatim>\<open>exp.pop()\<close> returns the last element, \<^verbatim>\<open>undefined\<close> on the empty array.\<close>

definition popped :: "jsval list \<Rightarrow> jsval" where
  "popped exp = (if exp = [] then Undefined else last exp)"

text \<open>
  \<^verbatim>\<open>evaluate\<close> pops from the array it is given: the model takes the array and returns the
  value together with what is left of the array. For a token that names a member inherited
  from \<^verbatim>\<open>Object.prototype\<close> (\<^verbatim>\<open>constructor\<close>, \<^verbatim>\<open>toString\<close>, ...) the test \<^verbatim>\<open>last in operations1\<close>
  succeeds and the code calls that member on the evaluated operand; what it returns is not
  a value of this model, which stops at the token, before the operand is evaluated, with
  \<open>Inherited_member\<close> and the array as it is then. Once the model has stopped in the first
  operand, the second is not evaluated. \<^verbatim>\<open>getOutputs\<close> never evaluates such a token.
\<close>

function evaluate :: "jsval list \<Rightarrow> (error + jsval) \<times> jsval list" where
  "evaluate exp =
     (let last = popped exp; exp1 = butlast exp in
      case map_of operations1 (to_string last) of
        Some f \<Rightarrow>
          (case evaluate exp1 of
             (Inl e, exp2) \<Rightarrow> (Inl e, exp2)
           | (Inr a, exp2) \<Rightarrow> (Inr (f a), exp2))
      | None \<Rightarrow>
          if inherited (to_string last) then (Inl (Inherited_member (to_string last)), exp1)
          else
            (case map_of operations2 (to_string last) of
               Some f \<Rightarrow>
                 (case evaluate exp1 of
                    (Inl e, exp2) \<Rightarrow> (Inl e, exp2)
                  | (Inr a, exp2) \<Rightarrow>
                      (case evaluate exp2 of
                         (Inl e, exp3) \<Rightarrow> (Inl e, exp3)
                       | (Inr b, exp3) \<Rightarrow> (Inr (f a b), exp3)))
             | None \<Rightarrow>
                 (case map_of conversion (to_string last) of
                    Some v \<Rightarrow> (Inr v, exp1)
                  | None \<Rightarrow> (Inr last, exp1))))"
  by pat_completeness auto

text \<open>
  Termination: every call pops one element before it recurses, and the second operand is
  evaluated on what the first has left, which is no longer than what it was given.
\<close>

lemma popped_empty_keys:
  "map_of operations1 (to_string (popped [])) = None"
  "map_of operations2 (to_string (popped [])) = None"
  by (simp_all add: popped_def operations1_def operations2_def sym_defs ascii_def)

lemma evaluate_length: "evaluate_dom exp \<Longrightarrow> length (snd (evaluate exp)) \<le> length exp"
proof (induction exp rule: evaluate.pinduct)
  case (1 exp)
  let ?l = "popped exp" and ?r = "butlast exp"
  show ?case
  proof (cases "map_of operations1 (to_string ?l)")
    case (Some f)
    from "1.IH"(3) [OF refl refl Some] have "length (snd (evaluate ?r)) \<le> length ?r" .
    then show ?thesis using Some
      by (subst evaluate.psimps [OF "1.hyps"])
        (auto simp: Let_def split: prod.splits sum.splits)
  next
    case None
    show ?thesis
    proof (cases "inherited (to_string ?l)")
      case True
      then show ?thesis using None
        by (subst evaluate.psimps [OF "1.hyps"]) (simp add: Let_def)
    next
      case False
      show ?thesis
      proof (cases "map_of operations2 (to_string ?l)")
        case (Some f)
        note ih1 = "1.IH"(1) [OF refl refl None False Some]
        show ?thesis
        proof (cases "evaluate ?r")
          case (Pair v exp2)
          with ih1 have l2: "length exp2 \<le> length ?r" by simp
          show ?thesis
          proof (cases v)
            case (Inl e)
            then show ?thesis using None False Some Pair l2
              by (subst evaluate.psimps [OF "1.hyps"]) (simp add: Let_def)
          next
            case (Inr a)
            from "1.IH"(2) [OF refl refl None False Some Pair [symmetric] Inr]
            have "length (snd (evaluate exp2)) \<le> length exp2" .
            then show ?thesis using None False Some Pair l2 Inr
              by (subst evaluate.psimps [OF "1.hyps"])
                (auto simp: Let_def split: prod.splits sum.splits)
          qed
        qed
      next
        case None2: None
        then show ?thesis using None False
          by (subst evaluate.psimps [OF "1.hyps"])
            (auto simp: Let_def split: option.splits)
      qed
    qed
  qed
qed

termination evaluate
proof (relation "measure length", goal_cases)
  case 1
  show ?case by simp
next
  case (2 exp last exp1 f)
  then show ?case using popped_empty_keys by (cases "exp = []") auto
next
  case (3 exp last exp1 f v exp2 a)
  have ne: "0 < length exp" using 3 popped_empty_keys by (cases "exp = []") auto
  have "evaluate (butlast exp) = (v, exp2)" using 3 by simp
  with 3 have le: "length exp2 \<le> length (butlast exp)"
    using evaluate_length [of "butlast exp"] by simp
  have lt: "length (butlast exp) < length exp"
    using ne unfolding length_butlast by arith
  from le lt have "length exp2 < length exp" by (rule le_less_trans)
  then show ?case by simp
next
  case (4 exp last exp1 f)
  then show ?case using popped_empty_keys by (cases "exp = []") auto
qed

declare evaluate.simps [simp del]

section \<open>Circuit diagram\<close>

text \<open>\<^verbatim>\<open>names\<close>, the names of the gates.\<close>

definition names :: "(ustring \<times> ustring) list" where
  "names =
    [(sym_not, ascii ''NOT''),
     (sym_and, ascii ''AND''),
     (sym_or, ascii ''OR''),
     (sym_imply, ascii ''IMPLY''),
     (sym_xor, ascii ''XOR''),
     (sym_xnor, ascii ''XNOR'')]"

text \<open>\<^verbatim>\<open>key in obj\<close>: an own member or one inherited from \<^verbatim>\<open>Object.prototype\<close>.\<close>

definition has_member :: "(ustring \<times> 'a) list \<Rightarrow> jsval \<Rightarrow> bool" where
  "has_member obj v = (map_of obj (to_string v) \<noteq> None \<or> inherited (to_string v))"

text \<open>
  \<^verbatim>\<open>names[last]\<close>: the name of the gate; for a token that names an inherited member, that
  member; \<^verbatim>\<open>undefined\<close> otherwise.
\<close>

datatype gate_name = Gate_name ustring | Prototype_member ustring | No_name

definition gate_of :: "jsval \<Rightarrow> gate_name" where
  "gate_of v =
     (case map_of names (to_string v) of
        Some n \<Rightarrow> Gate_name n
      | None \<Rightarrow> if inherited (to_string v) then Prototype_member (to_string v) else No_name)"

text \<open>
  The graph of the library is kept as the calls made on it: the nodes set, each with the
  gate or the label and the direction given to it, and the edges set, in order. The node
  names are distinct, so no call replaces an earlier node.
\<close>

datatype node_label = Gate_node gate_name int | Leaf_node jsval int

record graph =
  nodes :: "(ustring \<times> node_label) list"
  edges :: "(ustring \<times> ustring) list"

definition setNode :: "graph \<Rightarrow> ustring \<Rightarrow> node_label \<Rightarrow> graph" where
  "setNode g node label = g\<lparr>nodes := nodes g @ [(node, label)]\<rparr>"

definition setEdge :: "graph \<Rightarrow> ustring \<Rightarrow> ustring \<Rightarrow> graph" where
  "setEdge g parent node = g\<lparr>edges := edges g @ [(parent, node)]\<rparr>"

text \<open>The end of \<^verbatim>\<open>createCircuit\<close>: the edge from the parent, when there is one.\<close>

definition link :: "ustring option \<Rightarrow> ustring \<Rightarrow> graph \<times> jsval list \<Rightarrow> graph \<times> jsval list" where
  "link parentNode node r =
     (case parentNode of
        None \<Rightarrow> r
      | Some parent \<Rightarrow> (setEdge (fst r) parent node, snd r))"

text \<open>
  \<^verbatim>\<open>createCircuit\<close> pops from the array it is given, as \<^verbatim>\<open>evaluate\<close> does; the model takes the
  graph and the array and returns both.
\<close>

function createCircuit ::
  "graph \<Rightarrow> jsval list \<Rightarrow> int \<Rightarrow> ustring option \<Rightarrow> ustring \<Rightarrow> graph \<times> jsval list" where
  "createCircuit g exp direction parentNode node =
     (let last = popped exp; exp1 = butlast exp in
      if has_member operations1 last \<or> has_member operations2 last then
        (let g1 = setNode g node (Gate_node (gate_of last) direction) in
         if has_member operations1 last
         then link parentNode node (createCircuit g1 exp1 0 (Some node) (node @ ascii ''0''))
         else
           (case createCircuit g1 exp1 (- 1) (Some node) (node @ ascii ''0'') of
              (g2, exp2) \<Rightarrow>
                link parentNode node (createCircuit g2 exp2 1 (Some node) (node @ ascii ''1''))))
      else link parentNode node (setNode g node (Leaf_node last direction), exp1))"
  by pat_completeness auto

lemma popped_empty_member:
  "\<not> has_member operations1 (popped [])" "\<not> has_member operations2 (popped [])"
  by (simp_all add: has_member_def popped_def operations1_def operations2_def inherited_def
      object_prototype_def sym_defs ascii_def)

lemma snd_link: "snd (link parentNode node r) = snd r"
  by (simp add: link_def split: option.splits)

lemma createCircuit_length:
  "createCircuit_dom (g, exp, direction, parentNode, node) \<Longrightarrow>
   length (snd (createCircuit g exp direction parentNode node)) \<le> length exp"
proof (induction g exp direction parentNode node rule: createCircuit.pinduct)
  case (1 g exp direction parentNode node)
  let ?l = "popped exp" and ?r = "butlast exp"
  let ?g1 = "setNode g node (Gate_node (gate_of ?l) direction)"
  show ?case
  proof (cases "has_member operations1 ?l \<or> has_member operations2 ?l")
    case False
    then show ?thesis
      by (subst createCircuit.psimps [OF "1.hyps"]) (simp add: Let_def snd_link)
  next
    case op: True
    show ?thesis
    proof (cases "has_member operations1 ?l")
      case True
      from "1.IH"(1) [OF refl refl op refl True]
      have "length (snd (createCircuit ?g1 ?r 0 (Some node) (node @ ascii ''0''))) \<le> length ?r" .
      then show ?thesis using op True
        by (subst createCircuit.psimps [OF "1.hyps"]) (simp add: Let_def snd_link)
    next
      case False
      obtain g2 exp2 where c: "createCircuit ?g1 ?r (- 1) (Some node) (node @ ascii ''0'') = (g2, exp2)"
        by (cases "createCircuit ?g1 ?r (- 1) (Some node) (node @ ascii ''0'')")
      from "1.IH"(2) [OF refl refl op refl False] c have l2: "length exp2 \<le> length ?r" by simp
      from "1.IH"(3) [OF refl refl op refl False c [symmetric]]
      have "length (snd (createCircuit g2 exp2 1 (Some node) (node @ ascii ''1''))) \<le> length exp2" .
      with l2 show ?thesis using op False c
        by (subst createCircuit.psimps [OF "1.hyps"]) (simp add: Let_def snd_link)
    qed
  qed
qed

termination createCircuit
proof (relation "measure (\<lambda>(g, exp, direction, parentNode, node). length exp)", goal_cases)
  case 1
  show ?case by simp
next
  case (2 g exp direction parentNode node last exp1 g1)
  then have "exp \<noteq> []" using popped_empty_member by auto
  with 2 show ?case by (cases exp rule: rev_cases) simp_all
next
  case (3 g exp direction parentNode node last exp1 g1)
  then have "exp \<noteq> []" using popped_empty_member by auto
  with 3 show ?case by (cases exp rule: rev_cases) simp_all
next
  case (4 g exp direction parentNode node last exp1 g1 g2 exp2)
  then have ne: "exp \<noteq> []" using popped_empty_member by auto
  have c: "createCircuit g1 exp1 (- 1) (Some node) (node @ ascii ''0'') = (g2, exp2)"
    using 4 by simp
  have d: "createCircuit_dom (g1, exp1, - 1, Some node, node @ ascii ''0'')"
    using 4 by simp
  from createCircuit_length [OF d] c have "length exp2 \<le> length exp1" by simp
  moreover have "exp1 = butlast exp" using 4 by simp
  ultimately have le: "length exp2 \<le> length (butlast exp)" by simp
  have lt: "length (butlast exp) < length exp" using ne by (cases exp rule: rev_cases) simp_all
  from le lt have "length exp2 < length exp" by (rule le_less_trans)
  then show ?case by simp
qed

declare createCircuit.simps [simp del]

section \<open>Arrays shared between caller and callee\<close>

text \<open>
  Arrays are objects: a function that receives an array and changes it changes the
  caller's array. The two arrays of the program that are changed after they have been
  handed on, the postfix sequence and the list of variables, live in a store of arrays
  addressed by references; arrays that are only built and read are plain lists.
\<close>

record heap =
  cells :: "nat \<Rightarrow> jsval list"
  lim :: nat

definition empty_heap :: heap where
  "empty_heap = \<lparr>cells = (\<lambda>r. []), lim = 0\<rparr>"

text \<open>A new array gets the next free reference.\<close>

definition alloc :: "heap \<Rightarrow> jsval list \<Rightarrow> nat \<times> heap" where
  "alloc h xs = (lim h, \<lparr>cells = (cells h)(lim h := xs), lim = Suc (lim h)\<rparr>)"

text \<open>\<^verbatim>\<open>array.push(x)\<close>.\<close>

definition push :: "heap \<Rightarrow> nat \<Rightarrow> jsval \<Rightarrow> heap" where
  "push h r x = h\<lparr>cells := (cells h)(r := cells h r @ [x])\<rparr>"

text \<open>\<^verbatim>\<open>evaluate(exp)\<close> on the array behind a reference: what is popped is gone from it.\<close>

definition evaluate_ref :: "heap \<Rightarrow> nat \<Rightarrow> (error + jsval) \<times> heap" where
  "evaluate_ref h r =
     (case evaluate (cells h r) of (v, rest) \<Rightarrow> (v, h\<lparr>cells := (cells h)(r := rest)\<rparr>))"

text \<open>\<^verbatim>\<open>createCircuit(g, exp)\<close> on a new graph and the array behind a reference.\<close>

definition createCircuit_ref :: "heap \<Rightarrow> nat \<Rightarrow> graph \<times> heap" where
  "createCircuit_ref h r =
     (case createCircuit \<lparr>nodes = [], edges = []\<rparr> (cells h r) 0 None (ascii ''0'') of
        (g, rest) \<Rightarrow> (g, h\<lparr>cells := (cells h)(r := rest)\<rparr>))"

section \<open>Inputs and outputs\<close>

text \<open>
  Numbers are integers here: the program's numbers are loop counters and array indices,
  which a double holds exactly. \<^verbatim>\<open>n.toString(2)\<close>:
\<close>

function bits_of :: "nat \<Rightarrow> ustring" where
  "bits_of n = (if n < 2 then [48 + n] else bits_of (n div 2) @ [48 + n mod 2])"
  by pat_completeness auto
termination
  by (relation "measure (\<lambda>n. n)") auto

declare bits_of.simps [simp del]

definition toString2 :: "int \<Rightarrow> ustring" where
  "toString2 i = (if i < 0 then 45 # bits_of (nat (- i)) else bits_of (nat i))"

text \<open>\<^verbatim>\<open>s.padStart(n, '0')\<close>: a string already that long is returned as it is.\<close>

definition padStart :: "nat \<Rightarrow> ustring \<Rightarrow> ustring" where
  "padStart n s = replicate (n - length s) 48 @ s"

text \<open>
  \<^verbatim>\<open>parseInt(s, 2)\<close>: leading white space, an optional sign, then the longest run of
  binary digits; \<open>None\<close> is NaN, the result when no digit is found.
\<close>

definition bits_value :: "ustring \<Rightarrow> int" where
  "bits_value ds = foldl (\<lambda>a c. 2 * a + (int c - 48)) 0 ds"

definition parseInt2 :: "ustring \<Rightarrow> int option" where
  "parseInt2 s =
     (let t = dropWhile is_space s;
          negative = (t \<noteq> [] \<and> hd t = 45);
          u = (if t \<noteq> [] \<and> (hd t = 45 \<or> hd t = 43) then tl t else t);
          ds = takeWhile is_bit u
      in if ds = [] then None
         else Some (if negative then - bits_value ds else bits_value ds))"

text \<open>\<^verbatim>\<open>array[x]\<close> for the result of \<^verbatim>\<open>parseInt\<close>: NaN is no index.\<close>

definition at_parsed :: "jsval list \<Rightarrow> int option \<Rightarrow> jsval" where
  "at_parsed xs p = (case p of None \<Rightarrow> Undefined | Some i \<Rightarrow> at_index xs i)"

text \<open>\<^verbatim>\<open>getInputs\<close>: the rows of binary digits, each digit a string of its own.\<close>

definition getInputs :: "nat \<Rightarrow> jsval list list" where
  "getInputs len =
     map (\<lambda>i. map (\<lambda>c. Str [c]) (padStart len (toString2 (int i)))) [0..<2 ^ len]"

text \<open>
  The callback of \<^verbatim>\<open>map\<close> in \<^verbatim>\<open>getOutputs\<close>: \<open>n\<close> counts the tokens replaced so far, and a
  token that contains a letter is replaced by \<^verbatim>\<open>input[n]\<close> after \<open>n\<close> has been advanced.
\<close>

fun replace_variables :: "jsval list \<Rightarrow> int \<Rightarrow> jsval list \<Rightarrow> jsval list" where
  "replace_variables input n [] = []"
| "replace_variables input n (token # exp) =
     (if strRegex_test (to_string token)
      then at_index input (n + 1) # replace_variables input (n + 1) exp
      else token # replace_variables input n exp)"

text \<open>
  \<^verbatim>\<open>conversion[evaluate(replacedExp)]\<close>. The key is never the name of an inherited member:
  \<open>evaluate\<close> stops at such a token.
\<close>

definition converted :: "jsval \<Rightarrow> jsval" where
  "converted v = (case map_of conversion (to_string v) of Some d \<Rightarrow> d | None \<Rightarrow> Undefined)"

text \<open>
  \<^verbatim>\<open>getOutputs\<close>: \<^verbatim>\<open>replacedExp.map(...)\<close> builds a new array for each row of inputs, and that
  array is the one \<^verbatim>\<open>evaluate\<close> consumes.
\<close>

fun getOutputs_from ::
  "heap \<Rightarrow> nat \<Rightarrow> jsval list list \<Rightarrow> jsval list \<Rightarrow> (error + jsval list) \<times> heap" where
  "getOutputs_from h exp [] outputs = (Inr outputs, h)"
| "getOutputs_from h exp (input # inputs) outputs =
     (case alloc h (replace_variables input (- 1) (cells h exp)) of
        (replacedExp, h1) \<Rightarrow>
          (case evaluate_ref h1 replacedExp of
             (Inl e, h2) \<Rightarrow> (Inl e, h2)
           | (Inr v, h2) \<Rightarrow> getOutputs_from h2 exp inputs (outputs @ [converted v])))"

definition getOutputs :: "heap \<Rightarrow> nat \<Rightarrow> jsval list list \<Rightarrow> (error + jsval list) \<times> heap" where
  "getOutputs h exp inputs = getOutputs_from h exp inputs []"

text \<open>
  The outputs as a function of the contents of the postfix array alone: one evaluation of
  the replaced sequence for each row of inputs.
\<close>

fun outputs_from :: "jsval list \<Rightarrow> jsval list list \<Rightarrow> jsval list \<Rightarrow> error + jsval list" where
  "outputs_from exp [] outputs = Inr outputs"
| "outputs_from exp (input # inputs) outputs =
     (case fst (evaluate (replace_variables input (- 1) exp)) of
        Inl e \<Rightarrow> Inl e
      | Inr v \<Rightarrow> outputs_from exp inputs (outputs @ [converted v]))"

section \<open>Karnaugh map and truth table\<close>

unbundle bit_operations_syntax

text \<open>
  \<^verbatim>\<open>gray = i => i ^ (i >> 1)\<close>. The bitwise operators of JavaScript work on the operand
  reduced to a signed 32-bit integer; on such integers \<^verbatim>\<open>>> 1\<close> is the division by two
  that rounds down, and \<^verbatim>\<open>^\<close> is the exclusive or of the two's complements.
\<close>

definition to_int32 :: "int \<Rightarrow> int" where
  "to_int32 i = (i + 2 ^ 31) mod 2 ^ 32 - 2 ^ 31"

definition gray :: "int \<Rightarrow> int" where
  "gray i = to_int32 i XOR (to_int32 i div 2)"

text \<open>\<^verbatim>\<open>array.join('')\<close>: \<^verbatim>\<open>undefined\<close> contributes nothing.\<close>

fun join_text :: "jsval \<Rightarrow> ustring" where
  "join_text Undefined = []"
| "join_text v = to_string v"

definition join :: "jsval list \<Rightarrow> ustring" where
  "join xs = concat (map join_text xs)"

text \<open>\<^verbatim>\<open>gray(i).toString(2).padStart(width, '0')\<close>, the label of a row or of a column.\<close>

definition axis_label :: "nat \<Rightarrow> nat \<Rightarrow> ustring" where
  "axis_label width i = padStart width (toString2 (gray (int i)))"

text \<open>The index a cell reads: \<^verbatim>\<open>parseInt(index, 2)\<close> of the two labels put together.\<close>

definition cell_index :: "nat \<Rightarrow> nat \<Rightarrow> nat \<Rightarrow> nat \<Rightarrow> int option" where
  "cell_index vertical horizontal i j =
     parseInt2 (axis_label vertical i @ axis_label horizontal j)"

text \<open>The two groups of variables named in the corner of the map.\<close>

definition vertical_group :: "jsval list \<Rightarrow> jsval list" where
  "vertical_group variables = take (length variables div 2) variables"

definition horizontal_group :: "jsval list \<Rightarrow> jsval list" where
  "horizontal_group variables = drop (length variables div 2) variables"

text \<open>
  The table \<^verbatim>\<open>createKarnaughMap\<close> draws: the corner, the headings on top, and for each
  row its heading and its cells; a cell is the digit shown and whether it is highlighted.
\<close>

record karnaugh =
  corner :: ustring
  top_labels :: "ustring list"
  left_labels :: "ustring list"
  grid :: "(jsval \<times> bool) list list"

definition createKarnaughMap :: "jsval list \<Rightarrow> jsval list \<Rightarrow> karnaugh" where
  "createKarnaughMap outputs variables =
     (let vertical = length variables div 2;
          horizontal = length variables - vertical
      in \<lparr>corner = join (vertical_group variables) @ [92] @ join (horizontal_group variables),
          top_labels = map (axis_label horizontal) [0..<2 ^ horizontal],
          left_labels = map (axis_label vertical) [0..<2 ^ vertical],
          grid = map (\<lambda>i. map (\<lambda>j.
                   (let digit = at_parsed outputs (cell_index vertical horizontal i j)
                    in (digit, digit = Str (ascii ''1''))))
                   [0..<2 ^ horizontal])
                 [0..<2 ^ vertical]\<rparr>)"

text \<open>
  The table \<^verbatim>\<open>createTruthTable\<close> draws: the header and, for each row of inputs, its digits,
  the output and whether the output is highlighted. \<^verbatim>\<open>variables.push('Q')\<close> changes the
  array of the caller.
\<close>

record truth_table =
  header :: "jsval list"
  body :: "(jsval list \<times> jsval \<times> bool) list"

definition createTruthTable ::
  "heap \<Rightarrow> jsval list list \<Rightarrow> jsval list \<Rightarrow> nat \<Rightarrow> truth_table \<times> heap" where
  "createTruthTable h inputs outputs variables =
     (let h1 = push h variables (Str (ascii ''Q''))
      in (\<lparr>header = cells h1 variables,
           body = map (\<lambda>(input, i). (input, at_index outputs (int i),
                          at_index outputs (int i) = Str (ascii ''1'')))
                    (zip inputs [0..<length inputs])\<rparr>,
          h1))"

section \<open>The pipeline\<close>

text \<open>\<^verbatim>\<open>[...new Set(xs)]\<close>: the distinct elements in the order of their first occurrence.\<close>

definition distinct_first :: "'a list \<Rightarrow> 'a list" where
  "distinct_first xs = foldl (\<lambda>seen x. if x \<in> set seen then seen else seen @ [x]) [] xs"

text \<open>
  What \<^verbatim>\<open>newExpression\<close> computes from the text of the input field, up to the graph and
  the two tables; the calls of the renderer that follow draw them. \<^verbatim>\<open>tokens.filter\<close> on
  \<^verbatim>\<open>null\<close> raises a TypeError.
\<close>

record page =
  page_tokens :: "ustring list"
  page_postfix :: "ustring list"
  page_inputs :: "jsval list list"
  page_outputs :: "jsval list"
  page_graph :: graph
  page_karnaugh :: karnaugh
  page_table :: truth_table
  page_variables :: "jsval list"

definition newExpression :: "ustring \<Rightarrow> error + page" where
  "newExpression text =
     (case tokenize text of
        None \<Rightarrow> Inl TypeError
      | Some tokens \<Rightarrow>
          (case alloc empty_heap (map Str (distinct_first (filter strRegex_test tokens))) of
             (variables, h1) \<Rightarrow>
               (case convertToPostfix tokens of
                  Inl e \<Rightarrow> Inl e
                | Inr postfix \<Rightarrow>
                    (case alloc h1 (map Str postfix) of
                       (exp, h2) \<Rightarrow>
                         (let inputs = getInputs (length (cells h2 variables)) in
                          case getOutputs h2 exp inputs of
                            (Inl e, h3) \<Rightarrow> Inl e
                          | (Inr outputs, h3) \<Rightarrow>
                              (case createCircuit_ref h3 exp of
                                 (g, h4) \<Rightarrow>
                                   (let kmap = createKarnaughMap outputs (cells h4 variables) in
                                    case createTruthTable h4 inputs outputs variables of
                                      (table, h5) \<Rightarrow>
                                        Inr \<lparr>page_tokens = tokens,
                                             page_postfix = postfix,
                                             page_inputs = inputs,
                                             page_outputs = outputs,
                                             page_graph = g,
                                             page_karnaugh = kmap,
                                             page_table = table,
                                             page_variables = cells h5 variables\<rparr>)))))))"

section \<open>Notions for the statements\<close>

text \<open>A value that does not name a member inherited from \<^verbatim>\<open>Object.prototype\<close>.\<close>

definition plain :: "jsval \<Rightarrow> bool" where
  "plain v = (\<not> inherited (to_string v))"

text \<open>The reflected binary code of a natural number.\<close>

definition reflected :: "nat \<Rightarrow> nat" where
  "reflected n = n XOR n div 2"

text \<open>The positions among the lowest \<open>k\<close> bits in which two numbers differ.\<close>

definition differing_bits :: "nat \<Rightarrow> int \<Rightarrow> int \<Rightarrow> nat list" where
  "differing_bits k a b = filter (\<lambda>m. bit a m \<noteq> bit b m) [0..<k]"

text \<open>
  The number of \<^verbatim>\<open>(\<close> tokens that no later \<^verbatim>\<open>)\<close> has closed, after the tokens are read
  from left to right with \<open>depth\<close> of them open at the start; a \<^verbatim>\<open>)\<close> read at depth 0 closes
  nothing.
\<close>

fun unclosed :: "nat \<Rightarrow> ustring list \<Rightarrow> nat" where
  "unclosed depth [] = depth"
| "unclosed depth (token # tokens) =
     (if token = ascii ''('' then unclosed (Suc depth) tokens
      else if token = ascii '')'' then unclosed (depth - 1) tokens
      else unclosed depth tokens)"

section \<open>Evaluation of concrete inputs\<close>

abbreviation var_A :: ustring where "var_A \<equiv> ascii ''A''"
abbreviation var_B :: ustring where "var_B \<equiv> ascii ''B''"
abbreviation var_C :: ustring where "var_C \<equiv> ascii ''C''"
abbreviation label_Q :: ustring where "label_Q \<equiv> ascii ''Q''"
abbreviation zero :: jsval where "zero \<equiv> Str (ascii ''0'')"
abbreviation one :: jsval where "one \<equiv> Str (ascii ''1'')"

lemma bits_of_digit: "n < 2 \<Longrightarrow> bits_of n = [48 + n]"
  by (subst bits_of.simps) simp

lemma bits_of_more: "2 \<le> n \<Longrightarrow> bits_of n = bits_of (n div 2) @ [48 + n mod 2]"
  by (subst bits_of.simps) simp

lemmas char_defs = ascii_def sym_defs is_upper_def is_lower_def is_letter_def is_bit_def
  is_word_def is_space_def fold_case_def

lemmas tokenize_defs = normalize_def squeeze_def replace_symbols_def otherSymbols_def
  replacement_def tokenize_def

lemmas convert_defs = convertToPostfix_def convert_token_def alphaNum_test_def
  strRegex_test_def precedence_def top_key_def close_paren.simps

lemmas eval_defs = evaluate.simps popped_def operations1_def operations2_def conversion_def
  inherited_def object_prototype_def op_not_def op_and_def op_or_def op_imply_def
  op_xor_def op_xnor_def Let_def


lemmas output_defs = getInputs_def toString2_def padStart_def converted_def at_index_def
  bits_of_digit bits_of_more upt_conv_Cons strRegex_test_def

lemmas table_defs = createKarnaughMap_def vertical_group_def horizontal_group_def join_def
  axis_label_def cell_index_def parseInt2_def bits_value_def at_parsed_def gray_def
  to_int32_def

section \<open>The pipeline without the store\<close>

text \<open>
  The frame of \<^verbatim>\<open>getOutputs\<close>: its result is that of \<open>outputs_from\<close>, and every array
  that existed before the call is left as it was.
\<close>

lemma getOutputs_from_frame:
  "e < lim h \<Longrightarrow>
   \<exists>h'. getOutputs_from h e inputs acc = (outputs_from (cells h e) inputs acc, h') \<and>
        lim h \<le> lim h' \<and> (\<forall>r < lim h. cells h' r = cells h r)"
proof (induction inputs arbitrary: h acc)
  case Nil
  then show ?case by simp
next
  case (Cons input inputs)
  let ?xs = "replace_variables input (- 1) (cells h e)"
  obtain v rest where ev: "evaluate ?xs = (v, rest)" by (cases "evaluate ?xs")
  let ?h2 = "\<lparr>cells = (cells h)(lim h := rest), lim = Suc (lim h)\<rparr>"
  have step: "evaluate_ref (snd (alloc h ?xs)) (lim h) = (v, ?h2)"
    using ev by (simp add: evaluate_ref_def alloc_def)
  have same: "cells ?h2 e = cells h e" using Cons.prems by simp
  show ?case
  proof (cases v)
    case (Inl err)
    then show ?thesis using step ev Cons.prems
      by (auto simp: alloc_def)
  next
    case (Inr a)
    have "e < lim ?h2" using Cons.prems by simp
    from Cons.IH [OF this, of "acc @ [converted a]"] obtain h' where
      h': "getOutputs_from ?h2 e inputs (acc @ [converted a]) =
             (outputs_from (cells ?h2 e) inputs (acc @ [converted a]), h')"
        "lim ?h2 \<le> lim h'" "\<forall>r < lim ?h2. cells h' r = cells ?h2 r"
      by blast
    have "getOutputs_from h e (input # inputs) acc =
            (outputs_from (cells h e) (input # inputs) acc, h')"
      using step ev Inr h'(1) same by (simp add: alloc_def)
    moreover have "lim h \<le> lim h'" using h'(2) by simp
    moreover have "\<forall>r < lim h. cells h' r = cells h r" using h'(3) by auto
    ultimately show ?thesis by blast
  qed
qed

text \<open>
  \<^verbatim>\<open>newExpression\<close> in terms of the contents of its arrays. \<^verbatim>\<open>getOutputs\<close> leaves the
  variables as they are, \<^verbatim>\<open>createKarnaughMap\<close> reads them, and only then does
  \<^verbatim>\<open>createTruthTable\<close> add its column label to them.
\<close>

lemma newExpression_eq:
  "newExpression text =
     (case tokenize text of
        None \<Rightarrow> Inl TypeError
      | Some tokens \<Rightarrow>
          (case convertToPostfix tokens of
             Inl e \<Rightarrow> Inl e
           | Inr postfix \<Rightarrow>
               (let variables = map Str (distinct_first (filter strRegex_test tokens));
                    inputs = getInputs (length variables)
                in case outputs_from (map Str postfix) inputs [] of
                     Inl e \<Rightarrow> Inl e
                   | Inr outputs \<Rightarrow>
                       Inr \<lparr>page_tokens = tokens,
                            page_postfix = postfix,
                            page_inputs = inputs,
                            page_outputs = outputs,
                            page_graph =
                              fst (createCircuit \<lparr>nodes = [], edges = []\<rparr> (map Str postfix) 0
                                     None (ascii ''0'')),
                            page_karnaugh = createKarnaughMap outputs variables,
                            page_table =
                              \<lparr>header = variables @ [Str label_Q],
                               body = map (\<lambda>(input, i). (input, at_index outputs (int i),
                                          at_index outputs (int i) = one))
                                        (zip inputs [0..<length inputs])\<rparr>,
                            page_variables = variables @ [Str label_Q]\<rparr>)))"
proof (cases "tokenize text")
  case None
  then show ?thesis by (simp add: newExpression_def)
next
  case (Some tokens)
  let ?vars = "map Str (distinct_first (filter strRegex_test tokens))"
  show ?thesis
  proof (cases "convertToPostfix tokens")
    case (Inl e)
    then show ?thesis using Some by (simp add: newExpression_def alloc_def)
  next
    case (Inr postfix)
    let ?h2 = "\<lparr>cells = ((\<lambda>r. [])(0 := ?vars))(Suc 0 := map Str postfix),
               lim = Suc (Suc 0)\<rparr>"
    let ?inputs = "getInputs (length ?vars)"
    have "Suc 0 < lim ?h2" by simp
    from getOutputs_from_frame [OF this, of ?inputs "[]"] obtain h3 where
      h3: "getOutputs ?h2 (Suc 0) ?inputs = (outputs_from (map Str postfix) ?inputs [], h3)"
        "\<forall>r < lim ?h2. cells h3 r = cells ?h2 r"
      by (auto simp: getOutputs_def)
    from h3(2) have v3: "cells h3 0 = ?vars" and e3: "cells h3 (Suc 0) = map Str postfix"
      by simp_all
    show ?thesis
      using Some Inr h3(1) v3 e3
      by (simp add: newExpression_def alloc_def empty_heap_def createCircuit_ref_def
          createTruthTable_def push_def Let_def split: sum.splits prod.splits)
  qed
qed

lemma newExpression_steps:
  assumes "tokenize text = Some tokens"
    and "convertToPostfix tokens = Inr postfix"
    and "distinct_first (filter strRegex_test tokens) = vars"
    and "getInputs (length vars) = inputs"
    and "outputs_from (map Str postfix) inputs [] = Inr outputs"
  shows "newExpression text =
     Inr \<lparr>page_tokens = tokens,
          page_postfix = postfix,
          page_inputs = inputs,
          page_outputs = outputs,
          page_graph =
            fst (createCircuit \<lparr>nodes = [], edges = []\<rparr> (map Str postfix) 0 None (ascii ''0'')),
          page_karnaugh = createKarnaughMap outputs (map Str vars),
          page_table =
            \<lparr>header = map Str vars @ [Str label_Q],
             body = map (\<lambda>(input, i). (input, at_index outputs (int i),
                        at_index outputs (int i) = one))
                      (zip inputs [0..<length inputs])\<rparr>,
          page_variables = map Str vars @ [Str label_Q]\<rparr>"
  using assms by (simp add: newExpression_eq Let_def)

lemma tokenize_imply: "tokenize (ascii ''A>B'') = Some [var_A, sym_imply, var_B]"
  by (simp add: tokenize_defs char_defs)

lemma postfix_imply: "convertToPostfix [var_A, sym_imply, var_B] = Inr [var_A, var_B, sym_imply]"
  by (simp add: convert_defs char_defs)

lemma variables_imply: "distinct_first (filter strRegex_test [var_A, sym_imply, var_B]) = [var_A, var_B]"
  by (simp add: distinct_first_def strRegex_test_def char_defs)

lemma inputs_imply:
  "getInputs (length [var_A, var_B]) = [[zero, zero], [zero, one], [one, zero], [one, one]]"
  by (simp add: char_defs output_defs)

lemma outputs_imply:
  "outputs_from (map Str [var_A, var_B, sym_imply])
     [[zero, zero], [zero, one], [one, zero], [one, one]] [] = Inr [one, zero, one, one]"
  by (simp add: eval_defs char_defs output_defs)

lemma tokenize_xor: "tokenize (ascii ''A XOR A'') = Some [var_A, sym_or, var_A]"
  by (simp add: tokenize_defs char_defs)

lemma postfix_xor: "convertToPostfix [var_A, sym_or, var_A] = Inr [var_A, var_A, sym_or]"
  by (simp add: convert_defs char_defs)

lemma variables_xor: "distinct_first (filter strRegex_test [var_A, sym_or, var_A]) = [var_A]"
  by (simp add: distinct_first_def strRegex_test_def char_defs)

lemma inputs_xor: "getInputs (length [var_A]) = [[zero], [one]]"
  by (simp add: char_defs output_defs)

lemma outputs_xor:
  "outputs_from (map Str [var_A, var_A, sym_or]) [[zero], [one]] [] = Inr [zero, one]"
  by (simp add: eval_defs char_defs output_defs)

section \<open>Properties of the conversion\<close>

lemma precedence_top: "map_of precedence (top_key stack) = None"
  by (simp add: precedence_def top_key_def char_defs)

lemma convert_token_total: "\<exists>st'. convert_token st token = Inr st'"
  by (cases st) (simp add: convert_token_def precedence_top)

lemma convert_tokens_total: "\<exists>st'. convert_tokens st tokens = Inr st'"
proof (induction tokens arbitrary: st)
  case Nil
  show ?case by simp
next
  case (Cons token tokens)
  obtain st' where "convert_token st token = Inr st'"
    using convert_token_total by blast
  with Cons.IH [of st'] show ?case by simp
qed

lemma convertToPostfix_total: "\<exists>postfix. convertToPostfix tokens = Inr postfix"
proof -
  obtain st' where "convert_tokens ([], []) tokens = Inr st'"
    using convert_tokens_total by blast
  then show ?thesis by (cases st') (simp add: convertToPostfix_def)
qed

lemma close_paren_unmatched:
  "ascii ''('' \<notin> set stack \<Longrightarrow> close_paren postfix stack = (postfix @ rev stack, [])"
proof (induction stack arbitrary: postfix rule: rev_induct)
  case Nil
  show ?case by (simp add: close_paren.simps)
next
  case (snoc x xs)
  then show ?case by (subst close_paren.simps) auto
qed

lemma convert_token_keeps:
  assumes "convert_token (p, s) token = Inr (p', s')" and "token \<noteq> ascii '')''"
  shows "count_list (p' @ s') x = count_list (p @ s) x + count_list [token] x"
  using assms by (auto simp: convert_token_def split: if_splits)

lemma convert_tokens_keep:
  assumes "convert_tokens (p, s) tokens = Inr (p', s')" and "ascii '')'' \<notin> set tokens"
  shows "count_list (p' @ s') x = count_list (p @ s) x + count_list tokens x"
  using assms
proof (induction tokens arbitrary: p s)
  case Nil
  then show ?case by simp
next
  case (Cons token tokens)
  obtain p1 s1 where t: "convert_token (p, s) token = Inr (p1, s1)"
    using convert_token_total [of "(p, s)" token] by (cases "convert_token (p, s) token") auto
  with Cons.prems have r: "convert_tokens (p1, s1) tokens = Inr (p', s')" by simp
  from Cons.prems have ne: "token \<noteq> ascii '')''" and rest: "ascii '')'' \<notin> set tokens"
    by auto
  from Cons.IH [OF r rest] convert_token_keeps [OF t ne, of x]
  show ?case by simp
qed

lemma convertToPostfix_keeps:
  assumes "ascii '')'' \<notin> set tokens" and "convertToPostfix tokens = Inr postfix"
  shows "count_list postfix x = count_list tokens x"
proof -
  obtain p s where st: "convert_tokens ([], []) tokens = Inr (p, s)"
    using convert_tokens_total [of "([], [])" tokens]
    by (cases "convert_tokens ([], []) tokens") auto
  with assms(2) have "postfix = p @ rev s" by (simp add: convertToPostfix_def)
  with convert_tokens_keep [OF st assms(1), of x] show ?thesis by simp
qed

lemma paren_not_alphaNum: "\<not> alphaNum_test (ascii ''('')" "\<not> alphaNum_test (ascii '')'')"
  by (simp_all add: alphaNum_test_def char_defs)

lemma paren_distinct: "ascii ''('' \<noteq> ascii '')''"
  by (simp add: ascii_def)

lemma close_paren_matched:
  "ascii ''('' \<notin> set upper \<Longrightarrow>
   close_paren postfix (lower @ ascii ''('' # upper) = (postfix @ rev upper, lower)"
proof (induction upper arbitrary: postfix rule: rev_induct)
  case Nil
  show ?case by (subst close_paren.simps) simp
next
  case (snoc x xs)
  then have "close_paren (postfix @ [x]) (lower @ ascii ''('' # xs) = ((postfix @ [x]) @ rev xs, lower)"
    by simp
  moreover have "x \<noteq> ascii ''(''" using snoc.prems by auto
  ultimately show ?case
    by (subst close_paren.simps) (simp add: butlast_append)
qed

lemma convert_token_close_unmatched:
  "ascii ''('' \<notin> set stack \<Longrightarrow>
   convert_token (postfix, stack) (ascii '')'') = Inr (postfix @ rev stack, [])"
  by (simp add: convert_token_def paren_not_alphaNum paren_distinct [symmetric]
      close_paren_unmatched)

lemma convert_token_close_matched:
  "ascii ''('' \<notin> set upper \<Longrightarrow>
   convert_token (postfix, lower @ ascii ''('' # upper) (ascii '')'') =
     Inr (postfix @ rev upper, lower)"
  by (simp add: convert_token_def paren_not_alphaNum paren_distinct [symmetric]
      close_paren_matched)

lemma convert_token_parens:
  assumes "convert_token (p, s) token = Inr (p', s')" and "ascii ''('' \<notin> set p"
  shows "ascii ''('' \<notin> set p' \<and>
         count_list s' (ascii ''('') = unclosed (count_list s (ascii ''('')) [token]"
proof (cases "token = ascii '')''")
  case True
  show ?thesis
  proof (cases "ascii ''('' \<in> set s")
    case False
    with convert_token_close_unmatched [OF False, of p] assms True show ?thesis
      by (auto simp: paren_distinct [symmetric])
  next
    case in_stack: True
    from split_list_last [OF this] obtain lower upper where
      s: "s = lower @ ascii ''('' # upper" and a: "ascii ''('' \<notin> set upper" by blast
    from convert_token_close_matched [OF a, of p lower] assms True s a show ?thesis
      by (auto simp: paren_distinct [symmetric])
  qed
next
  case False
  with assms show ?thesis
    using paren_not_alphaNum(1)
    by (auto simp: convert_token_def split: if_splits)
qed

lemma unclosed_step:
  "unclosed depth (token # tokens) = unclosed (unclosed depth [token]) tokens"
  by simp

lemma convert_tokens_parens:
  assumes "convert_tokens (p, s) tokens = Inr (p', s')" and "ascii ''('' \<notin> set p"
  shows "ascii ''('' \<notin> set p' \<and>
         count_list s' (ascii ''('') = unclosed (count_list s (ascii ''('')) tokens"
  using assms
proof (induction tokens arbitrary: p s)
  case Nil
  then show ?case by simp
next
  case (Cons token tokens)
  obtain p1 s1 where t: "convert_token (p, s) token = Inr (p1, s1)"
    using convert_token_total [of "(p, s)" token] by (cases "convert_token (p, s) token") auto
  with Cons.prems have r: "convert_tokens (p1, s1) tokens = Inr (p', s')" by simp
  from convert_token_parens [OF t Cons.prems(2)]
  have p1: "ascii ''('' \<notin> set p1"
    and c1: "count_list s1 (ascii ''('') = unclosed (count_list s (ascii ''('')) [token]"
    by simp_all
  from Cons.IH [OF r p1] have "ascii ''('' \<notin> set p'"
    and "count_list s' (ascii ''('') = unclosed (count_list s1 (ascii ''('')) tokens"
    by simp_all
  then show ?case unfolding c1 by (subst unclosed_step) simp
qed

lemma convertToPostfix_parens:
  "\<exists>postfix stack. convert_tokens ([], []) tokens = Inr (postfix, stack) \<and>
     convertToPostfix tokens = Inr (postfix @ rev stack) \<and>
     ascii ''('' \<notin> set postfix \<and>
     count_list stack (ascii ''('') = unclosed 0 tokens"
proof -
  obtain p s where st: "convert_tokens ([], []) tokens = Inr (p, s)"
    using convert_tokens_total [of "([], [])" tokens]
    by (cases "convert_tokens ([], []) tokens") auto
  then have "convertToPostfix tokens = Inr (p @ rev s)" by (simp add: convertToPostfix_def)
  moreover from convert_tokens_parens [OF st] have "ascii ''('' \<notin> set p"
    and "count_list s (ascii ''('') = unclosed 0 tokens" by simp_all
  ultimately show ?thesis using st by blast
qed

lemma convert_tokens_close_unmatched:
  "ascii ''('' \<notin> set stack \<Longrightarrow>
   convert_tokens (postfix, stack) (ascii '')'' # rest) =
     convert_tokens (postfix @ rev stack, []) rest"
  by (simp add: convert_token_close_unmatched)

section \<open>Properties of the evaluation\<close>




text \<open>
  The pipeline never meets a token that names an inherited member: the tokens with a
  letter are replaced by digits of the row before the evaluation. Once the text has
  tokens, \<^verbatim>\<open>newExpression\<close> returns its tables.
\<close>

lemma inherited_letter: "inherited k \<Longrightarrow> strRegex_test k"
  by (auto simp: inherited_def object_prototype_def strRegex_test_def char_defs)

lemma inherited_long: "inherited k \<Longrightarrow> 1 < length k"
  by (auto simp: inherited_def object_prototype_def ascii_def)

lemma plain_Undefined: "plain Undefined"
  by (simp add: plain_def inherited_def object_prototype_def ascii_def)

lemma plain_no_letter: "\<not> strRegex_test (to_string v) \<Longrightarrow> plain v"
  using inherited_letter by (auto simp: plain_def)

lemma plain_at_index: "list_all plain input \<Longrightarrow> plain (at_index input i)"
  by (auto simp: at_index_def plain_Undefined list_all_length)

lemma plain_replace_variables:
  "list_all plain input \<Longrightarrow> list_all plain (replace_variables input n exp)"
  by (induction exp arbitrary: n) (simp_all add: plain_at_index plain_no_letter)

lemma plain_popped: "list_all plain exp \<Longrightarrow> plain (popped exp)"
  by (cases exp rule: rev_cases) (simp_all add: popped_def plain_Undefined)

lemma plain_butlast: "list_all plain exp \<Longrightarrow> list_all plain (butlast exp)"
  by (cases exp rule: rev_cases) simp_all

lemma evaluate_plain:
  "list_all plain exp \<Longrightarrow>
   (\<exists>v. fst (evaluate exp) = Inr v) \<and> list_all plain (snd (evaluate exp))"
proof (induction exp rule: evaluate.induct)
  case (1 exp)
  let ?l = "popped exp" and ?r = "butlast exp"
  have pl: "\<not> inherited (to_string ?l)" using plain_popped [OF "1.prems"] by (simp add: plain_def)
  have pr: "list_all plain ?r" using "1.prems" by (rule plain_butlast)
  show ?case
  proof (cases "map_of operations1 (to_string ?l)")
    case (Some f)
    from "1.IH"(3) [OF refl refl Some pr] show ?thesis using Some
      by (subst (1 2) evaluate.simps) (auto simp: Let_def split: prod.splits sum.splits)
  next
    case None
    show ?thesis
    proof (cases "map_of operations2 (to_string ?l)")
      case (Some f)
      from "1.IH"(1) [OF refl refl None pl Some pr] obtain a exp2 where
        a: "evaluate ?r = (Inr a, exp2)" and p2: "list_all plain exp2"
        by (cases "evaluate ?r") auto
      from "1.IH"(2) [OF refl refl None pl Some a [symmetric] refl p2] obtain b exp3 where
        b: "evaluate exp2 = (Inr b, exp3)" and p3: "list_all plain exp3"
        by (cases "evaluate exp2") auto
      show ?thesis using None pl Some a b p3
        by (subst (1 2) evaluate.simps) (simp add: Let_def)
    next
      case None2: None
      show ?thesis using None pl None2 pr
        by (subst (1 2) evaluate.simps) (simp add: Let_def split: option.splits)
    qed
  qed
qed

lemma outputs_from_total:
  "\<forall>input \<in> set inputs. list_all plain input \<Longrightarrow> \<exists>outputs. outputs_from exp inputs acc = Inr outputs"
proof (induction inputs arbitrary: acc)
  case Nil
  show ?case by simp
next
  case (Cons input inputs)
  then have "list_all plain input" by simp
  then have "list_all plain (replace_variables input (- 1) exp)" by (rule plain_replace_variables)
  from evaluate_plain [OF this] obtain v where
    "fst (evaluate (replace_variables input (- 1) exp)) = Inr v" by blast
  moreover from Cons obtain outputs where
    "outputs_from exp inputs (acc @ [converted v]) = Inr outputs" by auto
  ultimately show ?case by simp
qed

lemma getInputs_plain: "\<forall>input \<in> set (getInputs n). list_all plain input"
  using inherited_long by (fastforce simp: getInputs_def list_all_iff plain_def)

lemma newExpression_total:
  "tokenize text = Some tokens \<Longrightarrow> \<exists>p. newExpression text = Inr p"
proof -
  assume t: "tokenize text = Some tokens"
  obtain postfix where p: "convertToPostfix tokens = Inr postfix"
    using convertToPostfix_total by blast
  obtain outputs where
    "outputs_from (map Str postfix)
       (getInputs (length (distinct_first (filter strRegex_test tokens)))) [] = Inr outputs"
    using outputs_from_total [OF getInputs_plain] by blast
  with t p show ?thesis by (simp add: newExpression_eq Let_def)
qed

section \<open>Properties of the tokenizer\<close>

lemma bit_not_letter: "is_bit c \<Longrightarrow> \<not> is_letter c"
  by (auto simp: is_bit_def is_letter_def is_upper_def is_lower_def)

lemma takeWhile_stop:
  "s \<noteq> [] \<Longrightarrow> \<not> P (hd s) \<Longrightarrow> takeWhile P (cs @ s) = takeWhile P cs"
  by (induction cs) (auto simp: neq_Nil_conv)

lemma dropWhile_stop:
  "s \<noteq> [] \<Longrightarrow> \<not> P (hd s) \<Longrightarrow> dropWhile P (cs @ s) = dropWhile P cs @ s"
  by (induction cs) (auto simp: neq_Nil_conv)

lemma last_dropWhile:
  "dropWhile P cs \<noteq> [] \<Longrightarrow> last (dropWhile P cs) = last cs"
  by (induction cs) (auto split: if_splits)

lemma while_at_stop:
  "rest = [] \<or> \<not> P (hd rest) \<Longrightarrow> takeWhile P rest = [] \<and> dropWhile P rest = rest"
  by (cases rest) auto

lemma takeWhile_all:
  "list_all P ds \<Longrightarrow> rest = [] \<or> \<not> P (hd rest) \<Longrightarrow> takeWhile P (ds @ rest) = ds"
  by (induction ds) (simp_all add: while_at_stop)

lemma dropWhile_all:
  "list_all P ds \<Longrightarrow> rest = [] \<or> \<not> P (hd rest) \<Longrightarrow> dropWhile P (ds @ rest) = rest"
  by (induction ds) (simp_all add: while_at_stop)

lemma last_dropWhile_stop:
  assumes "cs = [] \<or> \<not> R (last cs)"
  shows "dropWhile P cs = [] \<or> \<not> R (last (dropWhile P cs))"
proof (cases "dropWhile P cs = []")
  case True
  then show ?thesis by simp
next
  case False
  then have "last (dropWhile P cs) = last cs" by (rule last_dropWhile)
  moreover from False have "cs \<noteq> []" by auto
  ultimately show ?thesis using assms by simp
qed

lemma match_all_run:
  assumes "ds \<noteq> []" and "list_all is_bit ds" and "rest = [] \<or> \<not> is_bit (hd rest)"
  shows "match_all (ds @ rest) = ds # match_all rest"
proof -
  from assms(1) obtain d ds' where ds: "ds = d # ds'" by (cases ds) auto
  with assms(2) have d: "is_bit d" and ds': "list_all is_bit ds'" by auto
  from d have "\<not> is_letter d" by (rule bit_not_letter)
  with d ds show ?thesis
    using takeWhile_all [OF ds' assms(3)] dropWhile_all [OF ds' assms(3)] by simp
qed

lemma match_all_append:
  assumes "pre = [] \<or> \<not> is_bit (last pre)" and "s \<noteq> []" and "is_bit (hd s)"
  shows "match_all (pre @ s) = match_all pre @ match_all s"
  using assms(1)
proof (induction pre rule: match_all.induct)
  case 1
  show ?case by simp
next
  case (2 c cs)
  have nl: "\<not> is_letter (hd s)" using assms(3) by (rule bit_not_letter)
  have tail: "cs = [] \<or> \<not> is_bit (last cs)" using "2.prems" by (auto split: if_splits)
  show ?case
  proof (cases "is_letter c")
    case True
    have "dropWhile is_letter cs = [] \<or> \<not> is_bit (last (dropWhile is_letter cs))"
      using tail by (rule last_dropWhile_stop)
    from "2.IH"(1) [OF True this] True show ?thesis
      using takeWhile_stop [of s is_letter cs] dropWhile_stop [of s is_letter cs] assms(2) nl
      by simp
  next
    case False
    show ?thesis
    proof (cases "is_bit c")
      case True
      with "2.prems" have ne: "cs \<noteq> []" and lb: "\<not> is_bit (last cs)"
        by (auto split: if_splits)
      then have mem: "last cs \<in> set cs" by simp
      have tw: "takeWhile is_bit (cs @ s) = takeWhile is_bit cs"
        using mem lb by (rule takeWhile_append1)
      have dw: "dropWhile is_bit (cs @ s) = dropWhile is_bit cs @ s"
        using mem lb by (rule dropWhile_append1)
      have "dropWhile is_bit cs = [] \<or> \<not> is_bit (last (dropWhile is_bit cs))"
        using tail by (rule last_dropWhile_stop)
      from "2.IH"(2) [OF False True this] False True tw dw show ?thesis by simp
    next
      case nb: False
      show ?thesis
      proof (cases "is_word c")
        case True
        from "2.IH"(4) [OF False nb _ tail] True False nb show ?thesis by simp
      next
        case nw: False
        from "2.IH"(3) [OF False nb nw tail] False nb nw show ?thesis by simp
      qed
    qed
  qed
qed

section \<open>Properties of the tables\<close>

lemma createTruthTable_pushes:
  "cells (snd (createTruthTable h inputs outputs v)) v = cells h v @ [Str label_Q]"
  "header (fst (createTruthTable h inputs outputs v)) = cells h v @ [Str label_Q]"
  by (simp_all add: createTruthTable_def push_def Let_def)

lemma horizontal_group_last:
  "horizontal_group (variables @ [x]) = drop (Suc (length variables) div 2) variables @ [x]"
proof -
  have "Suc (length variables) div 2 \<le> length variables" by (cases variables) auto
  then show ?thesis by (simp add: horizontal_group_def)
qed

lemma vertical_group_last:
  "vertical_group (variables @ [x]) = take (Suc (length variables) div 2) variables"
proof -
  have "Suc (length variables) div 2 \<le> length variables" by (cases variables) auto
  then show ?thesis by (simp add: vertical_group_def)
qed

lemma newExpression_order:
  assumes "newExpression text = Inr p"
  shows "page_variables p =
           map Str (distinct_first (filter strRegex_test (page_tokens p))) @ [Str label_Q]"
    and "page_karnaugh p =
           createKarnaughMap (page_outputs p)
             (map Str (distinct_first (filter strRegex_test (page_tokens p))))"
    and "header (page_table p) = page_variables p"
  using assms
  by (auto simp: newExpression_eq Let_def split: option.splits sum.splits)

section \<open>Properties of the Gray code\<close>

text \<open>
  On numbers below \<open>2 ^ 31\<close> the reduction to 32 bits changes nothing, and \<^verbatim>\<open>gray\<close> is the
  reflected binary code \<open>n XOR n div 2\<close> of the natural numbers.
\<close>

lemma to_int32_small: "0 \<le> i \<Longrightarrow> i < 2 ^ 31 \<Longrightarrow> to_int32 i = i"
  by (simp add: to_int32_def)

lemma gray_reflected: "n < 2 ^ 31 \<Longrightarrow> gray (int n) = int (reflected n)"
proof -
  assume "n < 2 ^ 31"
  then have "int n < 2 ^ 31" by (metis of_nat_less_iff of_nat_numeral of_nat_power)
  then have "to_int32 (int n) = int n" by (simp add: to_int32_small)
  then show ?thesis
    by (simp add: gray_def reflected_def of_nat_xor_eq zdiv_int)
qed

lemma reflected_double:
  "b < 2 \<Longrightarrow> reflected (2 * j + b) = 2 * reflected j + (b + j) mod 2"
  unfolding reflected_def
  by (subst xor_nat_rec) (auto simp: mod_2_eq_odd elim!: less_2_cases)

lemma xor_double:
  "x < 2 \<Longrightarrow> y < 2 \<Longrightarrow> (2 * a + x) XOR (2 * b + y) = 2 * (a XOR b) + (x XOR y)" for a b x y :: nat
  by (subst xor_nat_rec) (auto dest!: less_2_cases)

lemma reflected_step: "Suc n < 2 ^ k \<Longrightarrow> \<exists>m<k. reflected n XOR reflected (Suc n) = 2 ^ m"
proof (induction n arbitrary: k rule: less_induct)
  case (less n)
  from less.prems have k: "0 < k" by (cases k) auto
  show ?case
  proof (cases "even n")
    case True
    then obtain j where n: "n = 2 * j" by (auto elim: evenE)
    have a: "reflected n = 2 * reflected j + j mod 2"
      using reflected_double [of 0 j] n by simp
    have b: "reflected (Suc n) = 2 * reflected j + (1 + j) mod 2"
      using reflected_double [of 1 j] n by simp
    have "reflected n XOR reflected (Suc n) = 1"
      unfolding a b by (subst xor_double) (auto simp: mod_2_eq_odd)
    then have "reflected n XOR reflected (Suc n) = 2 ^ 0" by simp
    with k show ?thesis by blast
  next
    case False
    then obtain j where n: "n = 2 * j + 1" by (auto elim: oddE)
    have a: "reflected n = 2 * reflected j + (1 + j) mod 2"
      using reflected_double [of 1 j] n by simp
    have "Suc n = 2 * Suc j + 0" using n by simp
    then have b: "reflected (Suc n) = 2 * reflected (Suc j) + (Suc j) mod 2"
      using reflected_double [of 0 "Suc j"] by simp
    have x: "reflected n XOR reflected (Suc n) = 2 * (reflected j XOR reflected (Suc j))"
      unfolding a b by (subst xor_double) (auto simp: mod_2_eq_odd)
    obtain k' where k': "k = Suc k'" using k by (cases k) auto
    have "Suc j < 2 ^ k'" using less.prems n k' by simp
    moreover have "j < n" using n by simp
    ultimately obtain m where "m < k'" "reflected j XOR reflected (Suc j) = 2 ^ m"
      using less.IH by blast
    with x k' have "Suc m < k" "reflected n XOR reflected (Suc n) = 2 ^ Suc m" by simp_all
    then show ?thesis by blast
  qed
qed

lemma reflected_top: "reflected (2 ^ Suc k - 1) = 2 ^ k"
proof (induction k)
  case 0
  show ?case by (simp add: reflected_def)
next
  case (Suc k)
  have "1 \<le> p \<Longrightarrow> 4 * p - 1 = 2 * (2 * p - 1) + 1" for p :: nat by arith
  from this [of "2 ^ k"] have "(2::nat) ^ Suc (Suc k) - 1 = 2 * (2 ^ Suc k - 1) + 1" by simp
  then have "reflected (2 ^ Suc (Suc k) - 1) = 2 * reflected (2 ^ Suc k - 1) + (1 + (2 ^ Suc k - 1)) mod 2"
    using reflected_double [of 1 "2 ^ Suc k - 1"] by simp
  also have "\<dots> = 2 * 2 ^ k + 0" using Suc.IH by simp
  finally show ?case by simp
qed

lemma reflected_less: "n < 2 ^ k \<Longrightarrow> reflected n < 2 ^ k"
proof (induction k arbitrary: n)
  case 0
  then show ?case by (simp add: reflected_def)
next
  case (Suc k)
  define j b where "j = n div 2" and "b = n mod 2"
  have n: "n = 2 * j + b" and b: "b < 2" by (simp_all add: j_def b_def)
  with Suc.prems have "j < 2 ^ k" by simp
  then have "reflected j < 2 ^ k" by (rule Suc.IH)
  moreover have "(b + j) mod 2 < 2" by simp
  ultimately show ?case using reflected_double [OF b, of j] n by simp
qed

lemma reflected_zero: "reflected b = 0 \<Longrightarrow> b = 0"
proof (induction b rule: less_induct)
  case (less b)
  define j y where "j = b div 2" and "y = b mod 2"
  have b: "b = 2 * j + y" and y: "y < 2" by (simp_all add: j_def y_def)
  from less.prems reflected_double [OF y, of j] b
  have rj: "reflected j = 0" and par: "(y + j) mod 2 = 0" by simp_all
  show ?case
  proof (cases "b = 0")
    case True
    then show ?thesis .
  next
    case False
    then have "j < b" using j_def by simp
    from less.IH [OF this rj] have "j = 0" .
    with par y have "y = 0" by (auto dest!: less_2_cases)
    with \<open>j = 0\<close> b show ?thesis by simp
  qed
qed

lemma reflected_inj: "reflected a = reflected b \<Longrightarrow> a = b"
proof (induction a arbitrary: b rule: less_induct)
  case (less a)
  define j x where "j = a div 2" and "x = a mod 2"
  have a: "a = 2 * j + x" and x: "x < 2" by (simp_all add: j_def x_def)
  define j' y where "j' = b div 2" and "y = b mod 2"
  have b: "b = 2 * j' + y" and y: "y < 2" by (simp_all add: j'_def y_def)
  have ra: "reflected a = 2 * reflected j + (x + j) mod 2"
    using reflected_double [OF x, of j] a by simp
  have rb: "reflected b = 2 * reflected j' + (y + j') mod 2"
    using reflected_double [OF y, of j'] b by simp
  from less.prems ra rb
  have eq: "2 * reflected j + (x + j) mod 2 = 2 * reflected j' + (y + j') mod 2"
    by simp
  then have "(2 * reflected j + (x + j) mod 2) div 2 = (2 * reflected j' + (y + j') mod 2) div 2"
    by simp
  then have rj: "reflected j = reflected j'" by simp
  from eq rj have par: "(x + j) mod 2 = (y + j') mod 2" by simp
  show ?case
  proof (cases "a = 0")
    case True
    then have "reflected b = 0" using less.prems by (simp add: reflected_def)
    then have "b = 0" by (rule reflected_zero)
    with True show ?thesis by simp
  next
    case False
    then have "j < a" using j_def by simp
    from less.IH [OF this rj] have "j = j'" .
    with par x y have "x = y" by presburger
    with \<open>j = j'\<close> a b show ?thesis by simp
  qed
qed

lemma filter_eq_upt: "m < k \<Longrightarrow> filter (\<lambda>j. j = m) [0..<k] = [m]"
  by (induction k) (auto simp: less_Suc_eq)

lemma differing_bits_single:
  assumes "a XOR b = 2 ^ m" and "m < k"
  shows "differing_bits k a b = [m]"
proof -
  have "(bit a j \<noteq> bit b j) = (j = m)" for j
  proof -
    have "(bit a j \<noteq> bit b j) = bit (a XOR b) j" by (simp add: bit_xor_iff)
    also have "\<dots> = (j = m)" unfolding assms(1) by (auto simp: bit_exp_iff)
    finally show ?thesis .
  qed
  then show ?thesis using filter_eq_upt [OF assms(2)] by (simp add: differing_bits_def)
qed

lemma gray_neighbours:
  assumes "Suc n < 2 ^ k" and "k \<le> 31"
  shows "length (differing_bits k (gray (int n)) (gray (int n + 1))) = 1"
proof -
  have "(2::nat) ^ k \<le> 2 ^ 31" by (rule power_increasing) (use assms(2) in simp_all)
  with assms(1) have s: "Suc n < 2 ^ 31" and n: "n < 2 ^ 31" by simp_all
  have g1: "gray (int n) = int (reflected n)" using n by (rule gray_reflected)
  have "gray (int (Suc n)) = int (reflected (Suc n))" using s by (rule gray_reflected)
  then have g2: "gray (int n + 1) = int (reflected (Suc n))" by (simp add: add.commute)
  from reflected_step [OF assms(1)] obtain m where m: "m < k"
    and x: "reflected n XOR reflected (Suc n) = 2 ^ m" by blast
  have "int (reflected n) XOR int (reflected (Suc n)) = int (reflected n XOR reflected (Suc n))"
    by (simp add: of_nat_xor_eq)
  also have "\<dots> = 2 ^ m" using x by simp
  finally show ?thesis using differing_bits_single [OF _ m] g1 g2 by simp
qed

lemma gray_wraps:
  assumes "k \<le> 30"
  shows "length (differing_bits (Suc k) (gray (2 ^ Suc k - 1)) (gray 0)) = 1"
proof -
  have "(2::nat) ^ Suc k \<le> 2 ^ 31" by (rule power_increasing) (use assms in simp_all)
  then have lt: "(2::nat) ^ Suc k - 1 < 2 ^ 31" by simp
  have e: "int (2 ^ Suc k - 1) = 2 ^ Suc k - 1" by (simp add: of_nat_diff)
  have "gray (int (2 ^ Suc k - 1)) = int (2 ^ k)"
    using gray_reflected [OF lt] reflected_top [of k] by (simp only:)
  then have g: "gray (2 ^ Suc k - 1) = 2 ^ k" unfolding e by simp
  have z: "gray 0 = 0" by (simp add: gray_def to_int32_def)
  have "gray (2 ^ Suc k - 1) XOR gray 0 = 2 ^ k" using g z by simp
  from differing_bits_single [OF this, of "Suc k"] show ?thesis by simp
qed

lemma gray_range:
  assumes "n < 2 ^ k" and "k \<le> 31"
  shows "0 \<le> gray (int n) \<and> gray (int n) < 2 ^ k"
proof -
  have "(2::nat) ^ k \<le> 2 ^ 31" by (rule power_increasing) (use assms(2) in simp_all)
  with assms(1) have "n < 2 ^ 31" by simp
  then have g: "gray (int n) = int (reflected n)" by (rule gray_reflected)
  have "reflected n < 2 ^ k" using assms(1) by (rule reflected_less)
  then have "int (reflected n) < 2 ^ k" by (metis of_nat_less_iff of_nat_numeral of_nat_power)
  with g show ?thesis by simp
qed

section \<open>Properties of the labels and of the map\<close>

text \<open>
  A label is a string of binary digits whose value is the Gray code of its position, and
  \<^verbatim>\<open>parseInt\<close> reads two labels put together as the number whose high digits are those of
  the first label and whose low digits are those of the second.
\<close>

lemma foldl_bits:
  assumes f: "\<And>a c. f a c = 2 * a + (int c - 48)"
  shows "foldl f a ds = a * 2 ^ length ds + foldl f 0 ds"
proof (induction ds rule: rev_induct)
  case Nil
  show ?case by simp
next
  case (snoc d ds)
  have "foldl f a (ds @ [d]) = 2 * foldl f a ds + (int d - 48)" by (simp add: f)
  also have "\<dots> = a * 2 ^ length (ds @ [d]) + (2 * foldl f 0 ds + (int d - 48))"
    by (simp add: snoc.IH algebra_simps)
  also have "2 * foldl f 0 ds + (int d - 48) = foldl f 0 (ds @ [d])" by (simp add: f)
  finally show ?case .
qed

lemma bits_value_append:
  "bits_value (xs @ ys) = bits_value xs * 2 ^ length ys + bits_value ys"
  unfolding bits_value_def foldl_append by (rule foldl_bits) simp

lemma bits_value_zeros: "bits_value (replicate m 48) = 0"
  by (induction m) (simp_all add: bits_value_def)

lemma bits_value_bits_of: "bits_value (bits_of n) = int n"
proof (induction n rule: bits_of.induct)
  case (1 n)
  show ?case
  proof (cases "n < 2")
    case True
    then show ?thesis by (simp add: bits_of_digit bits_value_def)
  next
    case False
    then have "bits_of n = bits_of (n div 2) @ [48 + n mod 2]" by (simp add: bits_of_more)
    moreover have "bits_value (bits_of (n div 2)) = int (n div 2)" using False by (simp add: "1.IH")
    moreover have "bits_value [48 + n mod 2] = int (n mod 2)" by (simp add: bits_value_def)
    ultimately show ?thesis by (simp add: bits_value_append zdiv_int zmod_int)
  qed
qed

lemma bits_of_bits: "list_all is_bit (bits_of n)"
proof (induction n rule: bits_of.induct)
  case (1 n)
  show ?case
  proof (cases "n < 2")
    case True
    then show ?thesis by (auto simp: bits_of_digit is_bit_def dest!: less_2_cases)
  next
    case False
    have "n mod 2 = 0 \<or> n mod 2 = 1" by auto
    then have "is_bit (48 + n mod 2)" by (auto simp: is_bit_def)
    with False "1.IH" show ?thesis by (simp add: bits_of_more)
  qed
qed

lemma bits_of_nonempty: "bits_of n \<noteq> []"
  by (subst bits_of.simps) simp

lemma length_bits_of: "n < 2 ^ Suc k \<Longrightarrow> length (bits_of n) \<le> Suc k"
proof (induction k arbitrary: n)
  case 0
  then show ?case by (simp add: bits_of_digit)
next
  case (Suc k)
  show ?case
  proof (cases "n < 2")
    case True
    then show ?thesis by (simp add: bits_of_digit)
  next
    case False
    from Suc.prems have "n div 2 < 2 ^ Suc k" by simp
    from Suc.IH [OF this] False show ?thesis by (simp add: bits_of_more)
  qed
qed

lemma bit_not_space: "is_bit c \<Longrightarrow> \<not> is_space c"
  by (auto simp: is_bit_def is_space_def)

lemma parseInt2_bits:
  assumes "s \<noteq> []" and "list_all is_bit s"
  shows "parseInt2 s = Some (bits_value s)"
proof -
  from assms obtain c cs where s: "s = c # cs" and c: "is_bit c" by (cases s) auto
  from c have "\<not> is_space c" by (rule bit_not_space)
  then have d: "dropWhile is_space s = s" using s by simp
  have h: "hd s \<noteq> 45 \<and> hd s \<noteq> 43" using s c by (auto simp: is_bit_def)
  have t: "takeWhile is_bit s = s" using assms(2) by (simp add: list_all_iff)
  have u: "(if s \<noteq> [] \<and> (hd s = 45 \<or> hd s = 43) then tl s else s) = s" using h by simp
  show ?thesis unfolding parseInt2_def Let_def d u t using h assms(1) by simp
qed

lemma axis_label_reflected:
  "i < 2 ^ 31 \<Longrightarrow> axis_label w i = padStart w (bits_of (reflected i))"
  by (simp add: axis_label_def gray_reflected toString2_def)

lemma padStart_bits:
  "list_all is_bit s \<Longrightarrow> list_all is_bit (padStart w s)"
  by (auto simp: padStart_def list_all_iff is_bit_def)

lemma padStart_value: "bits_value (padStart w s) = bits_value s"
  by (simp add: padStart_def bits_value_append bits_value_zeros)

lemma padStart_length: "length s \<le> w \<Longrightarrow> length (padStart w s) = w"
  by (simp add: padStart_def)

lemma cell_index_reflected:
  assumes "i < 2 ^ 31" and "j < 2 ^ Suc h" and "Suc h \<le> 31"
  shows "cell_index v (Suc h) i j = Some (int (reflected i * 2 ^ Suc h + reflected j))"
proof -
  have "(2::nat) ^ Suc h \<le> 2 ^ 31" by (rule power_increasing) (use assms(3) in simp_all)
  with assms(2) have j: "j < 2 ^ 31" by simp
  let ?a = "padStart v (bits_of (reflected i))" and ?b = "padStart (Suc h) (bits_of (reflected j))"
  have lb: "length ?b = Suc h"
    using length_bits_of [OF reflected_less [OF assms(2)]] by (rule padStart_length)
  have bits: "list_all is_bit (?a @ ?b)" by (simp add: padStart_bits bits_of_bits)
  have ne: "?a @ ?b \<noteq> []" by (simp add: padStart_def bits_of_nonempty)
  have "cell_index v (Suc h) i j = parseInt2 (?a @ ?b)"
    using assms(1) j by (simp add: cell_index_def axis_label_reflected)
  also have "\<dots> = Some (bits_value (?a @ ?b))" using ne bits by (rule parseInt2_bits)
  also have "bits_value (?a @ ?b) = int (reflected i) * 2 ^ Suc h + int (reflected j)"
    unfolding bits_value_append lb by (simp add: padStart_value bits_value_bits_of)
  finally show ?thesis by simp
qed

lemma cell_index_value:
  assumes "i < 2 ^ 31" and "j < 2 ^ h" and "0 < h" and "h \<le> 31"
  shows "cell_index v h i j = Some (int (reflected i * 2 ^ h + reflected j))"
proof -
  from assms(3) obtain h' where "h = Suc h'" by (cases h) auto
  with assms cell_index_reflected [of i j h' v] show ?thesis by (simp only:)
qed

lemma reflected_onto: "g < 2 ^ k \<Longrightarrow> \<exists>i < 2 ^ k. reflected i = g"
proof -
  assume g: "g < 2 ^ k"
  have "reflected ` {..<2 ^ k} = {..<2 ^ k}"
  proof (rule endo_inj_surj)
    show "finite {..<(2::nat) ^ k}" by simp
    show "reflected ` {..<2 ^ k} \<subseteq> {..<2 ^ k}" by (auto intro: reflected_less)
    show "inj_on reflected {..<2 ^ k}" by (auto intro: inj_onI reflected_inj)
  qed
  with g show ?thesis by (auto simp: image_iff set_eq_iff) (metis lessThan_iff)
qed

lemma karnaugh_cell:
  assumes "i < 2 ^ (length variables div 2)"
    and "j < 2 ^ (length variables - length variables div 2)"
  shows "left_labels (createKarnaughMap outputs variables) ! i =
           axis_label (length variables div 2) i"
    and "top_labels (createKarnaughMap outputs variables) ! j =
           axis_label (length variables - length variables div 2) j"
    and "fst (grid (createKarnaughMap outputs variables) ! i ! j) =
           at_parsed outputs
             (cell_index (length variables div 2)
                (length variables - length variables div 2) i j)"
  using assms by (simp_all add: createKarnaughMap_def Let_def)

lemma karnaugh_size:
  "length (grid (createKarnaughMap outputs variables)) = 2 ^ (length variables div 2)"
  "\<forall>row \<in> set (grid (createKarnaughMap outputs variables)).
     length row = 2 ^ (length variables - length variables div 2)"
  by (auto simp: createKarnaughMap_def Let_def)

lemma cell_index_empty: "cell_index 0 0 0 0 = Some 0"
  by (simp add: table_defs char_defs output_defs Let_def)

lemma cell_index_unique:
  assumes "n \<le> 31" and "idx < 2 ^ n"
  shows "\<exists>i j. i < 2 ^ (n div 2) \<and> j < 2 ^ (n - n div 2) \<and>
           cell_index (n div 2) (n - n div 2) i j = Some (int idx) \<and>
           (\<forall>i' j'. i' < 2 ^ (n div 2) \<and> j' < 2 ^ (n - n div 2) \<and>
                cell_index (n div 2) (n - n div 2) i' j' = Some (int idx) \<longrightarrow>
              i' = i \<and> j' = j)"
proof (cases "n = 0")
  case True
  with assms(2) show ?thesis using cell_index_empty by simp
next
  case False
  define v h where "v = n div 2" and "h = n - n div 2"
  have n: "n = v + h" by (simp add: v_def h_def)
  have h0: "0 < h" using False by (simp add: h_def)
  have h31: "h \<le> 31" using assms(1) n by simp
  have "(2::nat) ^ v \<le> 2 ^ 31" by (rule power_increasing) (use assms(1) n in simp_all)
  then have small: "i < 2 ^ v \<Longrightarrow> i < 2 ^ 31" for i :: nat by simp
  have idx: "idx < 2 ^ v * 2 ^ h" using assms(2) n by (simp add: power_add)
  then have hi: "idx div 2 ^ h < 2 ^ v" by (simp add: less_mult_imp_div_less)
  have lo: "idx mod 2 ^ h < 2 ^ h" by simp
  from reflected_onto [OF hi] obtain i where i: "i < 2 ^ v" "reflected i = idx div 2 ^ h"
    by blast
  from reflected_onto [OF lo] obtain j where j: "j < 2 ^ h" "reflected j = idx mod 2 ^ h"
    by blast
  have "reflected i * 2 ^ h + reflected j = idx" unfolding i(2) j(2) by (rule div_mult_mod_eq)
  then have at: "cell_index v h i j = Some (int idx)"
    using cell_index_value [OF small [OF i(1)] j(1) h0 h31, of v] by (simp only:)
  have uniq: "i' = i \<and> j' = j"
    if "i' < 2 ^ v" "j' < 2 ^ h" "cell_index v h i' j' = Some (int idx)" for i' j'
  proof -
    from cell_index_value [OF small [OF that(1)] that(2) h0 h31, of v] that(3)
    have "int (reflected i' * 2 ^ h + reflected j') = int idx" by (simp only: option.inject)
    then have e: "reflected i' * 2 ^ h + reflected j' = idx" by (simp only: of_nat_eq_iff)
    have r: "reflected j' < 2 ^ h" using that(2) by (rule reflected_less)
    from e r have "idx mod 2 ^ h = reflected j'" by (metis mod_mult_self3 mod_less)
    moreover from e r have "idx div 2 ^ h = reflected i'" by (metis div_mult_self3 div_less add.right_neutral power_eq_0_iff zero_neq_numeral)
    ultimately have "reflected i' = reflected i" "reflected j' = reflected j"
      using i(2) j(2) by simp_all
    then show ?thesis by (simp add: reflected_inj)
  qed
  from i(1) j(1) at uniq show ?thesis unfolding v_def h_def by blast
qed

lemma gray_formula: "i < 2 ^ 31 \<Longrightarrow> gray (int i) = int i XOR int i div 2"
proof -
  assume "i < 2 ^ 31"
  then have "int i < 2 ^ 31" by (metis of_nat_less_iff of_nat_numeral of_nat_power)
  then have "to_int32 (int i) = int i" by (simp add: to_int32_small)
  then show ?thesis by (simp add: gray_def)
qed

lemma axis_label_value:
  "i < 2 ^ 31 \<Longrightarrow> parseInt2 (axis_label w i) = Some (gray (int i))"
proof -
  assume i: "i < 2 ^ 31"
  let ?a = "padStart w (bits_of (reflected i))"
  have "?a \<noteq> []" by (simp add: padStart_def bits_of_nonempty)
  moreover have "list_all is_bit ?a" by (simp add: padStart_bits bits_of_bits)
  ultimately have "parseInt2 ?a = Some (bits_value ?a)" by (rule parseInt2_bits)
  then show ?thesis
    using i by (simp add: axis_label_reflected gray_reflected padStart_value bits_value_bits_of)
qed

lemma axis_label_length:
  assumes "i < 2 ^ w" and "w \<le> 31"
  shows "length (axis_label w i) = max 1 w"
proof (cases w)
  case 0
  with assms(1) have "i = 0" by simp
  with 0 show ?thesis by (simp add: table_defs char_defs output_defs)
next
  case (Suc k)
  have "(2::nat) ^ w \<le> 2 ^ 31" by (rule power_increasing) (use assms(2) in simp_all)
  with assms(1) have i: "i < 2 ^ 31" by simp
  from assms(1) have "reflected i < 2 ^ w" by (rule reflected_less)
  then have "reflected i < 2 ^ Suc k" unfolding Suc .
  then have "length (bits_of (reflected i)) \<le> Suc k" by (rule length_bits_of)
  then have "length (padStart (Suc k) (bits_of (reflected i))) = Suc k" by (rule padStart_length)
  with Suc i show ?thesis by (simp add: axis_label_reflected)
qed

lemma cell_index_gray:
  assumes "n \<le> 31" and "i < 2 ^ (n div 2)" and "j < 2 ^ (n - n div 2)"
  shows "cell_index (n div 2) (n - n div 2) i j =
           Some (gray (int i) * 2 ^ (n - n div 2) + gray (int j))"
proof (cases "n = 0")
  case True
  with assms show ?thesis using cell_index_empty by (simp add: gray_def to_int32_def)
next
  case False
  define v h where "v = n div 2" and "h = n - n div 2"
  have n: "n = v + h" by (simp add: v_def h_def)
  have h0: "0 < h" using False by (simp add: h_def)
  have h31: "h \<le> 31" using assms(1) n by simp
  have "(2::nat) ^ v \<le> 2 ^ 31" by (rule power_increasing) (use assms(1) n in simp_all)
  with assms(2) have i: "i < 2 ^ 31" by (simp add: v_def)
  have "(2::nat) ^ h \<le> 2 ^ 31" by (rule power_increasing) (use h31 in simp_all)
  with assms(3) have j: "j < 2 ^ 31" by (simp add: h_def)
  have jh: "j < 2 ^ h" using assms(3) by (simp add: h_def)
  have "cell_index v h i j = Some (gray (int i) * 2 ^ h + gray (int j))"
    using cell_index_value [OF i jh h0 h31, of v]
    by (simp add: gray_reflected [OF i] gray_reflected [OF j])
  then show ?thesis unfolding v_def h_def .
qed

lemma variables_of_array:
  assumes "length outputs = 2 ^ n" and "length (outputs :: jsval list) < 2 ^ 32"
  shows "n \<le> 31"
proof -
  have "(2::nat) ^ n < 2 ^ 32" using assms by (simp only:)
  then have "n < 32" by (rule power_less_imp_less_exp [rotated]) simp
  then show ?thesis by simp
qed

lemma karnaugh_labels_gray:
  assumes "length outputs = 2 ^ length variables" and "length outputs < 2 ^ 32"
  shows "\<forall>i j. i < 2 ^ (length variables div 2) \<and>
           j < 2 ^ (length variables - length variables div 2) \<longrightarrow>
        gray (int i) = int i XOR int i div 2 \<and>
        gray (int j) = int j XOR int j div 2 \<and>
        left_labels (createKarnaughMap outputs variables) ! i =
          padStart (length variables div 2) (toString2 (gray (int i))) \<and>
        top_labels (createKarnaughMap outputs variables) ! j =
          padStart (length variables - length variables div 2) (toString2 (gray (int j))) \<and>
        length (left_labels (createKarnaughMap outputs variables) ! i) =
          max 1 (length variables div 2) \<and>
        length (top_labels (createKarnaughMap outputs variables) ! j) =
          max 1 (length variables - length variables div 2) \<and>
        parseInt2 (left_labels (createKarnaughMap outputs variables) ! i) =
          Some (gray (int i)) \<and>
        parseInt2 (top_labels (createKarnaughMap outputs variables) ! j) =
          Some (gray (int j)) \<and>
        parseInt2 (left_labels (createKarnaughMap outputs variables) ! i @
                   top_labels (createKarnaughMap outputs variables) ! j) =
          Some (gray (int i) * 2 ^ (length variables - length variables div 2) +
                gray (int j)) \<and>
        0 \<le> gray (int i) * 2 ^ (length variables - length variables div 2) + gray (int j) \<and>
        gray (int i) * 2 ^ (length variables - length variables div 2) + gray (int j) <
          int (length outputs) \<and>
        grid (createKarnaughMap outputs variables) ! i ! j =
          (outputs ! nat (gray (int i) * 2 ^ (length variables - length variables div 2) +
                          gray (int j)),
           outputs ! nat (gray (int i) * 2 ^ (length variables - length variables div 2) +
                          gray (int j)) = Str (ascii ''1''))"
proof (intro allI impI)
  fix i j
  let ?n = "length variables"
  let ?v = "?n div 2" and ?h = "?n - ?n div 2"
  let ?km = "createKarnaughMap outputs variables"
  let ?idx = "gray (int i) * 2 ^ ?h + gray (int j)"
  assume "i < 2 ^ ?v \<and> j < 2 ^ ?h"
  then have iv: "i < 2 ^ ?v" and jh: "j < 2 ^ ?h" by simp_all
  from assms have n: "?n \<le> 31" by (rule variables_of_array)
  then have v31: "?v \<le> 31" and h31: "?h \<le> 31" by simp_all
  have "(2::nat) ^ ?v \<le> 2 ^ 31" by (rule power_increasing) (use v31 in simp_all)
  with iv have i: "i < 2 ^ 31" by simp
  have "(2::nat) ^ ?h \<le> 2 ^ 31" by (rule power_increasing) (use h31 in simp_all)
  with jh have j: "j < 2 ^ 31" by simp
  have left: "left_labels ?km ! i = axis_label ?v i" and top: "top_labels ?km ! j = axis_label ?h j"
    using karnaugh_cell(1,2) [OF iv jh] by simp_all
  have cell: "cell_index ?v ?h i j = Some ?idx" using n iv jh by (rule cell_index_gray)
  have ri: "reflected i < 2 ^ ?v" using iv by (rule reflected_less)
  have rj: "reflected j < 2 ^ ?h" using jh by (rule reflected_less)
  have "reflected i * 2 ^ ?h + reflected j < 2 ^ ?v * 2 ^ ?h"
  proof -
    from ri have "Suc (reflected i) * 2 ^ ?h \<le> 2 ^ ?v * 2 ^ ?h"
      by (intro mult_le_mono1) simp
    with rj show ?thesis by simp
  qed
  also have "\<dots> = 2 ^ ?n" by (simp add: power_add [symmetric])
  finally have "reflected i * 2 ^ ?h + reflected j < length outputs" using assms(1) by simp
  then have "int (reflected i * 2 ^ ?h + reflected j) < int (length outputs)"
    by (simp only: of_nat_less_iff)
  then have below: "?idx < int (length outputs)"
    by (simp add: gray_reflected [OF i] gray_reflected [OF j])
  have pos: "0 \<le> ?idx" by (simp add: gray_reflected [OF i] gray_reflected [OF j])
  have shown: "grid ?km ! i ! j = (outputs ! nat ?idx, outputs ! nat ?idx = Str (ascii ''1''))"
  proof -
    have "nat ?idx < length outputs" using pos below by (simp add: nat_less_iff)
    with iv jh pos show ?thesis
      by (simp add: createKarnaughMap_def Let_def cell at_parsed_def at_index_def)
  qed
  show "gray (int i) = int i XOR int i div 2 \<and>
        gray (int j) = int j XOR int j div 2 \<and>
        left_labels ?km ! i = padStart ?v (toString2 (gray (int i))) \<and>
        top_labels ?km ! j = padStart ?h (toString2 (gray (int j))) \<and>
        length (left_labels ?km ! i) = max 1 ?v \<and>
        length (top_labels ?km ! j) = max 1 ?h \<and>
        parseInt2 (left_labels ?km ! i) = Some (gray (int i)) \<and>
        parseInt2 (top_labels ?km ! j) = Some (gray (int j)) \<and>
        parseInt2 (left_labels ?km ! i @ top_labels ?km ! j) = Some ?idx \<and>
        0 \<le> ?idx \<and> ?idx < int (length outputs) \<and>
        grid ?km ! i ! j = (outputs ! nat ?idx, outputs ! nat ?idx = Str (ascii ''1''))"
    unfolding left top
  proof (intro conjI)
    show "gray (int i) = int i XOR int i div 2" using i by (rule gray_formula)
    show "gray (int j) = int j XOR int j div 2" using j by (rule gray_formula)
    show "axis_label ?v i = padStart ?v (toString2 (gray (int i)))" by (simp add: axis_label_def)
    show "axis_label ?h j = padStart ?h (toString2 (gray (int j)))" by (simp add: axis_label_def)
    show "length (axis_label ?v i) = max 1 ?v" using iv v31 by (rule axis_label_length)
    show "length (axis_label ?h j) = max 1 ?h" using jh h31 by (rule axis_label_length)
    show "parseInt2 (axis_label ?v i) = Some (gray (int i))" using i by (rule axis_label_value)
    show "parseInt2 (axis_label ?h j) = Some (gray (int j))" using j by (rule axis_label_value)
    show "parseInt2 (axis_label ?v i @ axis_label ?h j) = Some ?idx"
      using cell by (simp add: cell_index_def)
    show "0 \<le> ?idx" by (rule pos)
    show "?idx < int (length outputs)" by (rule below)
    show "grid ?km ! i ! j = (outputs ! nat ?idx, outputs ! nat ?idx = Str (ascii ''1''))"
      by (rule shown)
  qed
qed

lemma karnaugh_each_index:
  assumes "length outputs = 2 ^ length variables" and "length outputs < 2 ^ 32"
  shows "\<forall>idx < length outputs. \<exists>i j.
        i < 2 ^ (length variables div 2) \<and>
        j < 2 ^ (length variables - length variables div 2) \<and>
        parseInt2 (left_labels (createKarnaughMap outputs variables) ! i @
                   top_labels (createKarnaughMap outputs variables) ! j) = Some (int idx) \<and>
        fst (grid (createKarnaughMap outputs variables) ! i ! j) = outputs ! idx \<and>
        (\<forall>i' j'. i' < 2 ^ (length variables div 2) \<and>
                 j' < 2 ^ (length variables - length variables div 2) \<and>
                 parseInt2 (left_labels (createKarnaughMap outputs variables) ! i' @
                            top_labels (createKarnaughMap outputs variables) ! j') =
                   Some (int idx) \<longrightarrow>
               i' = i \<and> j' = j)"
proof (intro allI impI)
  fix idx
  assume idx: "idx < length outputs"
  let ?n = "length variables"
  let ?km = "createKarnaughMap outputs variables"
  have "(2::nat) ^ ?n < 2 ^ 32" using assms by (simp only:)
  then have "?n < 32" by (rule power_less_imp_less_exp [rotated]) simp
  then have n: "?n \<le> 31" by simp
  have i2: "idx < 2 ^ ?n" using idx assms(1) by simp
  from cell_index_unique [OF n i2] obtain i j where
    ij: "i < 2 ^ (?n div 2)" "j < 2 ^ (?n - ?n div 2)"
      "cell_index (?n div 2) (?n - ?n div 2) i j = Some (int idx)"
    and uniq: "\<And>i' j'. i' < 2 ^ (?n div 2) \<Longrightarrow> j' < 2 ^ (?n - ?n div 2) \<Longrightarrow>
        cell_index (?n div 2) (?n - ?n div 2) i' j' = Some (int idx) \<Longrightarrow> i' = i \<and> j' = j"
    by blast
  have labels: "parseInt2 (left_labels ?km ! i' @ top_labels ?km ! j') =
      cell_index (?n div 2) (?n - ?n div 2) i' j'"
    if "i' < 2 ^ (?n div 2)" "j' < 2 ^ (?n - ?n div 2)" for i' j'
    using karnaugh_cell(1,2) [OF that] by (simp add: cell_index_def)
  have shown: "fst (grid ?km ! i ! j) = outputs ! idx"
    unfolding karnaugh_cell(3) [OF ij(1,2)] ij(3) using idx by (simp add: at_parsed_def at_index_def)
  have here: "parseInt2 (left_labels ?km ! i @ top_labels ?km ! j) = Some (int idx)"
    unfolding labels [OF ij(1,2)] by (rule ij(3))
  have only: "\<forall>i' j'. i' < 2 ^ (?n div 2) \<and> j' < 2 ^ (?n - ?n div 2) \<and>
                 parseInt2 (left_labels ?km ! i' @ top_labels ?km ! j') = Some (int idx) \<longrightarrow>
               i' = i \<and> j' = j"
  proof (intro allI impI)
    fix i' j'
    assume c: "i' < 2 ^ (?n div 2) \<and> j' < 2 ^ (?n - ?n div 2) \<and>
                 parseInt2 (left_labels ?km ! i' @ top_labels ?km ! j') = Some (int idx)"
    then have a: "i' < 2 ^ (?n div 2)" and b: "j' < 2 ^ (?n - ?n div 2)" by simp_all
    from c have "cell_index (?n div 2) (?n - ?n div 2) i' j' = Some (int idx)"
      unfolding labels [OF a b] by simp
    with a b show "i' = i \<and> j' = j" by (rule uniq)
  qed
  from ij(1,2) here shown only
  show "\<exists>i j. i < 2 ^ (?n div 2) \<and> j < 2 ^ (?n - ?n div 2) \<and>
        parseInt2 (left_labels ?km ! i @ top_labels ?km ! j) = Some (int idx) \<and>
        fst (grid ?km ! i ! j) = outputs ! idx \<and>
        (\<forall>i' j'. i' < 2 ^ (?n div 2) \<and> j' < 2 ^ (?n - ?n div 2) \<and>
                 parseInt2 (left_labels ?km ! i' @ top_labels ?km ! j') = Some (int idx) \<longrightarrow>
               i' = i \<and> j' = j)"
    by (intro exI [of _ i] exI [of _ j] conjI)
qed

section \<open>Claims\<close>

text \<open>
  C1. For a binary operator the operand evaluated first, the one nearer the end of the
  postfix sequence, is the right-hand operand and the second the left-hand one, so that
  \<^verbatim>\<open>A>B\<close> has the rows (0,0) to 1, (0,1) to 1, (1,0) to 0, (1,1) to 1.
  \<^verbatim>\<open>evaluate\<close> passes the operand it evaluates first as the first argument of the
  operation, the antecedent of \<^verbatim>\<open>(a, b) => (!a || b)\<close>: for the postfix sequence
  \<^verbatim>\<open>0 1 IMPLY\<close> it computes 1 implies 0. The table of \<^verbatim>\<open>A>B\<close> that the pipeline produces
  has the rows (0,1) to 0 and (1,0) to 1.
\<close>

theorem C1_imply_operands_swapped:
  "evaluate [zero, one, Str sym_imply] = (Inr (Bool False), []) \<and>
   evaluate [one, zero, Str sym_imply] = (Inr (Bool True), []) \<and>
   (\<exists>p. newExpression (ascii ''A>B'') = Inr p \<and>
        page_postfix p = [var_A, var_B, sym_imply] \<and>
        page_inputs p = [[zero, zero], [zero, one], [one, zero], [one, one]] \<and>
        page_outputs p = [one, zero, one, one])"
proof -
  have "evaluate [zero, one, Str sym_imply] = (Inr (Bool False), [])"
    by (simp add: eval_defs char_defs)
  moreover have "evaluate [one, zero, Str sym_imply] = (Inr (Bool True), [])"
    by (simp add: eval_defs char_defs)
  moreover have "\<exists>p. newExpression (ascii ''A>B'') = Inr p \<and>
        page_postfix p = [var_A, var_B, sym_imply] \<and>
        page_inputs p = [[zero, zero], [zero, one], [one, zero], [one, one]] \<and>
        page_outputs p = [one, zero, one, one]"
    using newExpression_steps
      [OF tokenize_imply postfix_imply variables_imply inputs_imply outputs_imply]
    by simp
  ultimately show ?thesis by blast
qed

text \<open>
  C2. Every occurrence of a variable is replaced by the bit assigned to its name, so that
  \<^verbatim>\<open>A XOR A\<close>, with the single variable \<^verbatim>\<open>A\<close>, has the output 0 in every row.
  \<^verbatim>\<open>getOutputs\<close> replaces the n-th token that contains a letter by the n-th digit of the
  row, whatever the name: the second \<^verbatim>\<open>A\<close> reads past the end of the one-digit row and
  becomes \<^verbatim>\<open>undefined\<close>. The outputs of \<^verbatim>\<open>A XOR A\<close> are 0 and 1.
\<close>

theorem C2_repeated_variable:
  "replace_variables [one] (- 1) [Str var_A, Str var_A, Str sym_xor] = [one, Undefined, Str sym_xor] \<and>
   outputs_from [Str var_A, Str var_A, Str sym_xor] [[zero], [one]] [] = Inr [zero, one] \<and>
   (\<exists>p. newExpression (ascii ''A XOR A'') = Inr p \<and>
        page_tokens p = [var_A, sym_or, var_A] \<and>
        page_variables p = [Str var_A, Str label_Q] \<and>
        page_inputs p = [[zero], [one]] \<and>
        page_outputs p = [zero, one])"
proof -
  have "replace_variables [one] (- 1) [Str var_A, Str var_A, Str sym_xor] =
          [one, Undefined, Str sym_xor]"
    by (simp add: char_defs output_defs)
  moreover have "outputs_from [Str var_A, Str var_A, Str sym_xor] [[zero], [one]] [] = Inr [zero, one]"
    by (simp add: eval_defs char_defs output_defs)
  moreover have "\<exists>p. newExpression (ascii ''A XOR A'') = Inr p \<and>
        page_tokens p = [var_A, sym_or, var_A] \<and>
        page_variables p = [Str var_A, Str label_Q] \<and>
        page_inputs p = [[zero], [one]] \<and>
        page_outputs p = [zero, one]"
    using newExpression_steps
      [OF tokenize_xor postfix_xor variables_xor inputs_xor outputs_xor]
    by simp
  ultimately show ?thesis by blast
qed

text \<open>
  C3. When an operator arrives, the operators on the stack of greater precedence, or of
  equal precedence for a left-associative operator, are popped to the output before it is
  pushed. In \<^verbatim>\<open>convertToPostfix\<close> the loop that compares precedences is never entered: its
  condition reads \<^verbatim>\<open>precedence\<close> at the key NaN. For \<^verbatim>\<open>A.B+C\<close> the AND on the stack, of
  precedence 1, stays there when the OR, of precedence 0, arrives.
\<close>

theorem C3_precedence_ignored:
  "tokenize (ascii ''A.B+C'') = Some [var_A, sym_and, var_B, sym_or, var_C] \<and>
   map_of precedence sym_and = Some 1 \<and> map_of precedence sym_or = Some 0 \<and>
   convertToPostfix [var_A, sym_and, var_B, sym_or, var_C] = Inr [var_A, var_B, var_C, sym_or, sym_and] \<and>
   convertToPostfix [var_A, sym_and, var_B, sym_or, var_C] \<noteq> Inr [var_A, var_B, sym_and, var_C, sym_or]"
  by (simp add: tokenize_defs convert_defs char_defs)

text \<open>
  C4. Normalization replaces each recognized synonym by its canonical symbol; in
  particular the words NOT and XOR become the symbols of negation and of exclusive or.
  The table \<^verbatim>\<open>otherSymbols\<close> maps both words to the symbol of OR: the input \<^verbatim>\<open>NOT A\<close> is
  normalized to the OR symbol followed by \<^verbatim>\<open>A\<close>, not to the NOT symbol followed by \<^verbatim>\<open>A\<close>.
\<close>

theorem C4_normalize_NOT:
  "normalize (ascii ''NOT A'') = sym_or @ ascii ''A'' \<and>
   normalize (ascii ''NOT A'') \<noteq> sym_not @ ascii ''A'' \<and>
   normalize (ascii ''A XOR B'') = ascii ''A'' @ sym_or @ ascii ''B'' \<and>
   normalize (ascii ''A.B+!C'') = ascii ''A'' @ sym_and @ ascii ''B'' @ sym_or @ sym_not @ ascii ''C''"
  by (simp add: tokenize_defs char_defs)

text \<open>
  C5. The claim: the conversion fails with an unbalanced-parentheses error when a \<^verbatim>\<open>)\<close> is
  read and the stack empties before a \<^verbatim>\<open>(\<close> is found, or when a \<^verbatim>\<open>(\<close> is left on the stack
  at the end of the input. \<^verbatim>\<open>convertToPostfix\<close> has no error to report: for \<^verbatim>\<open>A)\<close> it
  returns \<^verbatim>\<open>A\<close>, and for \<^verbatim>\<open>(A\<close> it returns \<^verbatim>\<open>A (\<close>.
\<close>

theorem C5_unbalanced_counterexample:
  "convertToPostfix [var_A, ascii '')''] = Inr [var_A] \<and>
   convertToPostfix [ascii ''('', var_A] = Inr [var_A, ascii ''('']"
  by (simp add: convert_defs char_defs)

text \<open>
  C5, as the code has it. The conversion returns a postfix sequence for every sequence
  of tokens: the output followed by the stack, top first. The output holds no \<^verbatim>\<open>(\<close>, and
  the stack holds one \<^verbatim>\<open>(\<close> for every \<^verbatim>\<open>(\<close> of the input that no later \<^verbatim>\<open>)\<close> has closed, so
  these are part of the sequence returned. A \<^verbatim>\<open>)\<close> read while no \<^verbatim>\<open>(\<close> is on the stack moves
  the whole stack to the output, top first, leaves the stack empty, and the conversion goes
  on with the next token. A \<^verbatim>\<open>)\<close> read while a \<^verbatim>\<open>(\<close> is on the stack moves the tokens above
  the topmost \<^verbatim>\<open>(\<close> to the output, top first, and takes that \<^verbatim>\<open>(\<close> off the stack. Without a
  \<^verbatim>\<open>)\<close> in the input, every \<^verbatim>\<open>(\<close> of the input is part of the sequence returned.
\<close>

theorem C5_conversion_never_fails:
  "(\<exists>postfix stack. convert_tokens ([], []) tokens = Inr (postfix, stack) \<and>
      convertToPostfix tokens = Inr (postfix @ rev stack) \<and>
      ascii ''('' \<notin> set postfix \<and>
      count_list stack (ascii ''('') = unclosed 0 tokens) \<and>
   (ascii ''('' \<notin> set stack \<longrightarrow>
      close_paren out stack = (out @ rev stack, []) \<and>
      convert_token (out, stack) (ascii '')'') = Inr (out @ rev stack, []) \<and>
      convert_tokens (out, stack) (ascii '')'' # rest) =
        convert_tokens (out @ rev stack, []) rest) \<and>
   (ascii ''('' \<notin> set upper \<longrightarrow>
      convert_token (out, lower @ ascii ''('' # upper) (ascii '')'') =
        Inr (out @ rev upper, lower)) \<and>
   (ascii '')'' \<notin> set opened \<longrightarrow>
      (\<exists>postfix. convertToPostfix opened = Inr postfix \<and>
         count_list postfix (ascii ''('') = count_list opened (ascii ''('')))"
  using convertToPostfix_parens [of tokens] close_paren_unmatched [of stack out]
    convert_token_close_unmatched [of stack out]
    convert_tokens_close_unmatched [of stack out rest]
    convert_token_close_matched [of upper out lower]
    convertToPostfix_total [of opened] convertToPostfix_keeps [of opened]
  by blast

theorem C5_conversion_never_fails_witness:
  "convert_tokens ([], []) [ascii ''('', var_A, ascii '')'', ascii ''('', var_B] =
     Inr ([var_A, var_B], [ascii ''(''])  \<and>
   convertToPostfix [ascii ''('', var_A, ascii '')'', ascii ''('', var_B] =
     Inr [var_A, var_B, ascii ''(''] \<and>
   unclosed 0 [ascii ''('', var_A, ascii '')'', ascii ''('', var_B] = 1 \<and>
   close_paren [var_A, var_B] [sym_or, sym_and] = ([var_A, var_B, sym_and, sym_or], []) \<and>
   convert_token ([var_A, var_B], [sym_or, sym_and]) (ascii '')'') =
     Inr ([var_A, var_B, sym_and, sym_or], []) \<and>
   convert_tokens ([var_A, var_B], [sym_or, sym_and]) [ascii '')'', sym_xor, var_C] =
     Inr ([var_A, var_B, sym_and, sym_or, var_C], [sym_xor]) \<and>
   convert_token ([var_A, var_B], [sym_or, ascii ''('', sym_and]) (ascii '')'') =
     Inr ([var_A, var_B, sym_and], [sym_or]) \<and>
   (\<exists>postfix. convertToPostfix [ascii ''('', var_A] = Inr postfix \<and>
      count_list postfix (ascii ''('') = 1)"
  using C5_conversion_never_fails [of "[ascii ''('', var_A, ascii '')'', ascii ''('', var_B]"
      "[sym_or, sym_and]" "[var_A, var_B]" "[sym_xor, var_C]" "[sym_and]" "[sym_or]"
      "[ascii ''('', var_A]"]
  by (simp add: convert_defs char_defs)




text \<open>
  C7. The claim: a run of the digits 0 and 1 gives one token per digit. The alternative
  \<^verbatim>\<open>[01]+\<close> of \<^verbatim>\<open>tokenRegex\<close> matches the run as a whole: \<^verbatim>\<open>10\<close> is the single token \<^verbatim>\<open>10\<close>.
\<close>

theorem C7_digits_grouped_counterexample:
  "tokenize (ascii ''10'') = Some [ascii ''10''] \<and>
   tokenize (ascii ''10'') \<noteq> Some [ascii ''1'', ascii ''0'']"
  by (simp add: tokenize_defs char_defs)

text \<open>
  C7, as the code has it. A maximal run of the digits 0 and 1 in the normalized text, one
  that no such digit precedes or follows, is one token that holds the whole run.
\<close>

theorem C7_run_is_one_token:
  assumes "normalize exp = pre @ ds @ rest"
    and "ds \<noteq> []" and "list_all is_bit ds"
    and "pre = [] \<or> \<not> is_bit (last pre)"
    and "rest = [] \<or> \<not> is_bit (hd rest)"
  shows "tokenize exp = Some (match_all pre @ ds # match_all rest)"
proof -
  have "is_bit (hd (ds @ rest))" using assms(2,3) by (cases ds) auto
  with match_all_append [OF assms(4), of "ds @ rest"] assms(2)
  have "match_all (pre @ ds @ rest) = match_all pre @ match_all (ds @ rest)" by simp
  also have "\<dots> = match_all pre @ ds # match_all rest"
    using match_all_run [OF assms(2,3,5)] by simp
  finally show ?thesis using assms(1) by (simp add: tokenize_def split: list.splits)
qed

theorem C7_run_is_one_token_witness:
  "tokenize (ascii ''A+10.B'') = Some [var_A, sym_or, ascii ''10'', sym_and, var_B]"
  using C7_run_is_one_token [of "ascii ''A+10.B''" "var_A @ sym_or" "ascii ''10''" "sym_and @ var_B"]
  by (simp add: tokenize_defs char_defs)

text \<open>
  C8. Let the truth table of \<open>n\<close> variables have its \<open>2 ^ n\<close> outputs in an array (an array
  has fewer than \<open>2 ^ 32\<close> elements), and let \<open>v = n div 2\<close> and \<open>h = n - v\<close>. The grid of the
  Karnaugh map has \<open>2 ^ v\<close> rows of \<open>2 ^ h\<close> cells, and for every index of the truth table
  there is exactly one cell whose row label followed by its column label, read as a binary
  number, is that index; this cell shows the output at that index. The labels are the Gray
  codes of the positions: the label of row \<open>i\<close> is \<^verbatim>\<open>gray(i)\<close>, that is \<open>i XOR i div 2\<close>, written
  in binary and padded with zeros to \<open>v\<close> digits (one digit when \<open>v = 0\<close>), the label of column
  \<open>j\<close> is \<^verbatim>\<open>gray(j)\<close> written in binary and padded to \<open>h\<close> digits; the two labels put together
  are read as \<open>gray(i) * 2 ^ h + gray(j)\<close>, an index of the truth table, and the cell at row
  \<open>i\<close> and column \<open>j\<close> shows the output at this index, highlighted when it is \<^verbatim>\<open>1\<close>.
\<close>

theorem C8_karnaugh_addresses_each_row_once:
  assumes "length outputs = 2 ^ length variables" and "length outputs < 2 ^ 32"
  shows "length (grid (createKarnaughMap outputs variables)) = 2 ^ (length variables div 2) \<and>
    (\<forall>row \<in> set (grid (createKarnaughMap outputs variables)).
        length row = 2 ^ (length variables - length variables div 2)) \<and>
    (\<forall>idx < length outputs. \<exists>i j.
        i < 2 ^ (length variables div 2) \<and>
        j < 2 ^ (length variables - length variables div 2) \<and>
        parseInt2 (left_labels (createKarnaughMap outputs variables) ! i @
                   top_labels (createKarnaughMap outputs variables) ! j) = Some (int idx) \<and>
        fst (grid (createKarnaughMap outputs variables) ! i ! j) = outputs ! idx \<and>
        (\<forall>i' j'. i' < 2 ^ (length variables div 2) \<and>
                 j' < 2 ^ (length variables - length variables div 2) \<and>
                 parseInt2 (left_labels (createKarnaughMap outputs variables) ! i' @
                            top_labels (createKarnaughMap outputs variables) ! j') =
                   Some (int idx) \<longrightarrow>
               i' = i \<and> j' = j)) \<and>
    (\<forall>i j. i < 2 ^ (length variables div 2) \<and>
             j < 2 ^ (length variables - length variables div 2) \<longrightarrow>
          gray (int i) = int i XOR int i div 2 \<and>
          gray (int j) = int j XOR int j div 2 \<and>
          left_labels (createKarnaughMap outputs variables) ! i =
            padStart (length variables div 2) (toString2 (gray (int i))) \<and>
          top_labels (createKarnaughMap outputs variables) ! j =
            padStart (length variables - length variables div 2) (toString2 (gray (int j))) \<and>
          length (left_labels (createKarnaughMap outputs variables) ! i) =
            max 1 (length variables div 2) \<and>
          length (top_labels (createKarnaughMap outputs variables) ! j) =
            max 1 (length variables - length variables div 2) \<and>
          parseInt2 (left_labels (createKarnaughMap outputs variables) ! i) =
            Some (gray (int i)) \<and>
          parseInt2 (top_labels (createKarnaughMap outputs variables) ! j) =
            Some (gray (int j)) \<and>
          parseInt2 (left_labels (createKarnaughMap outputs variables) ! i @
                     top_labels (createKarnaughMap outputs variables) ! j) =
            Some (gray (int i) * 2 ^ (length variables - length variables div 2) +
                  gray (int j)) \<and>
          0 \<le> gray (int i) * 2 ^ (length variables - length variables div 2) + gray (int j) \<and>
          gray (int i) * 2 ^ (length variables - length variables div 2) + gray (int j) <
            int (length outputs) \<and>
          grid (createKarnaughMap outputs variables) ! i ! j =
            (outputs ! nat (gray (int i) * 2 ^ (length variables - length variables div 2) +
                            gray (int j)),
             outputs ! nat (gray (int i) * 2 ^ (length variables - length variables div 2) +
                            gray (int j)) = Str (ascii ''1'')))"
proof (intro conjI)
  show "length (grid (createKarnaughMap outputs variables)) = 2 ^ (length variables div 2)"
    by (rule karnaugh_size)
  show "\<forall>row \<in> set (grid (createKarnaughMap outputs variables)).
          length row = 2 ^ (length variables - length variables div 2)"
    by (rule karnaugh_size)
  show "\<forall>idx < length outputs. \<exists>i j.
        i < 2 ^ (length variables div 2) \<and>
        j < 2 ^ (length variables - length variables div 2) \<and>
        parseInt2 (left_labels (createKarnaughMap outputs variables) ! i @
                   top_labels (createKarnaughMap outputs variables) ! j) = Some (int idx) \<and>
        fst (grid (createKarnaughMap outputs variables) ! i ! j) = outputs ! idx \<and>
        (\<forall>i' j'. i' < 2 ^ (length variables div 2) \<and>
                 j' < 2 ^ (length variables - length variables div 2) \<and>
                 parseInt2 (left_labels (createKarnaughMap outputs variables) ! i' @
                            top_labels (createKarnaughMap outputs variables) ! j') =
                   Some (int idx) \<longrightarrow>
               i' = i \<and> j' = j)"
    using assms by (rule karnaugh_each_index)
  show "\<forall>i j. i < 2 ^ (length variables div 2) \<and>
           j < 2 ^ (length variables - length variables div 2) \<longrightarrow>
        gray (int i) = int i XOR int i div 2 \<and>
        gray (int j) = int j XOR int j div 2 \<and>
        left_labels (createKarnaughMap outputs variables) ! i =
          padStart (length variables div 2) (toString2 (gray (int i))) \<and>
        top_labels (createKarnaughMap outputs variables) ! j =
          padStart (length variables - length variables div 2) (toString2 (gray (int j))) \<and>
        length (left_labels (createKarnaughMap outputs variables) ! i) =
          max 1 (length variables div 2) \<and>
        length (top_labels (createKarnaughMap outputs variables) ! j) =
          max 1 (length variables - length variables div 2) \<and>
        parseInt2 (left_labels (createKarnaughMap outputs variables) ! i) =
          Some (gray (int i)) \<and>
        parseInt2 (top_labels (createKarnaughMap outputs variables) ! j) =
          Some (gray (int j)) \<and>
        parseInt2 (left_labels (createKarnaughMap outputs variables) ! i @
                   top_labels (createKarnaughMap outputs variables) ! j) =
          Some (gray (int i) * 2 ^ (length variables - length variables div 2) +
                gray (int j)) \<and>
        0 \<le> gray (int i) * 2 ^ (length variables - length variables div 2) + gray (int j) \<and>
        gray (int i) * 2 ^ (length variables - length variables div 2) + gray (int j) <
          int (length outputs) \<and>
        grid (createKarnaughMap outputs variables) ! i ! j =
          (outputs ! nat (gray (int i) * 2 ^ (length variables - length variables div 2) +
                          gray (int j)),
           outputs ! nat (gray (int i) * 2 ^ (length variables - length variables div 2) +
                          gray (int j)) = Str (ascii ''1''))"
    using assms by (rule karnaugh_labels_gray)
qed

theorem C8_karnaugh_addresses_each_row_once_witness:
  "length [zero, zero, zero, zero, zero, zero, zero, zero,
           zero, zero, zero, zero, zero, zero, one, zero] =
     2 ^ length [Str var_A, Str var_B, Str var_C, Str (ascii ''D'')] \<and>
   length [zero, zero, zero, zero, zero, zero, zero, zero,
           zero, zero, zero, zero, zero, zero, one, zero] < 2 ^ 32 \<and>
   (2::nat) < 2 ^ (length [Str var_A, Str var_B, Str var_C, Str (ascii ''D'')] div 2) \<and>
   (3::nat) < 2 ^ (length [Str var_A, Str var_B, Str var_C, Str (ascii ''D'')] -
                   length [Str var_A, Str var_B, Str var_C, Str (ascii ''D'')] div 2) \<and>
   gray 2 = 3 \<and> gray 3 = 2 \<and>
   left_labels (createKarnaughMap
       [zero, zero, zero, zero, zero, zero, zero, zero,
        zero, zero, zero, zero, zero, zero, one, zero]
       [Str var_A, Str var_B, Str var_C, Str (ascii ''D'')]) ! 2 = ascii ''11'' \<and>
   top_labels (createKarnaughMap
       [zero, zero, zero, zero, zero, zero, zero, zero,
        zero, zero, zero, zero, zero, zero, one, zero]
       [Str var_A, Str var_B, Str var_C, Str (ascii ''D'')]) ! 3 = ascii ''10'' \<and>
   parseInt2 (ascii ''11'' @ ascii ''10'') = Some 14 \<and>
   grid (createKarnaughMap
       [zero, zero, zero, zero, zero, zero, zero, zero,
        zero, zero, zero, zero, zero, zero, one, zero]
       [Str var_A, Str var_B, Str var_C, Str (ascii ''D'')]) ! 2 ! 3 = (one, True) \<and>
   [zero, zero, zero, zero, zero, zero, zero, zero,
    zero, zero, zero, zero, zero, zero, one, zero] ! 14 = one"
proof -
  let ?outputs = "[zero, zero, zero, zero, zero, zero, zero, zero,
                   zero, zero, zero, zero, zero, zero, one, zero]"
  let ?variables = "[Str var_A, Str var_B, Str var_C, Str (ascii ''D'')]"
  let ?km = "createKarnaughMap ?outputs ?variables"
  have a: "length ?outputs = 2 ^ length ?variables" by simp
  have b: "length ?outputs < 2 ^ 32" by simp
  have c: "(14::nat) < length ?outputs" by simp
  have rows: "(2::nat) < 2 ^ (length ?variables div 2)"
    and columns: "(3::nat) < 2 ^ (length ?variables - length ?variables div 2)"
    by simp_all
  have g2: "gray 2 = 3" and g3: "gray 3 = 2" by (simp_all add: gray_def to_int32_def)
  have l2: "padStart 2 (toString2 3) = ascii ''11''"
    and l3: "padStart 2 (toString2 2) = ascii ''10''"
    by (simp_all add: table_defs char_defs output_defs)
  have p: "parseInt2 (ascii ''11'' @ ascii ''10'') = Some 14"
    by (simp add: table_defs char_defs output_defs)
  have v: "length ?variables div 2 = 2"
    and h: "length ?variables - 2 = 2"
    by simp_all
  note claim = C8_karnaugh_addresses_each_row_once [OF a b]
  note cell = claim [THEN conjunct2, THEN conjunct2, THEN conjunct2, THEN spec, THEN spec,
      THEN mp, OF conjI [OF rows columns], unfolded v h of_nat_numeral g2 g3 l2 l3]
  from cell have left: "left_labels ?km ! 2 = ascii ''11''" by blast
  from cell have top: "top_labels ?km ! 3 = ascii ''10''" by blast
  from cell have "grid ?km ! 2 ! 3 =
      (?outputs ! nat (3 * 2 ^ 2 + 2), ?outputs ! nat (3 * 2 ^ 2 + 2) = Str (ascii ''1''))"
    by blast
  then have shown: "grid ?km ! 2 ! 3 = (one, True)" by simp
  from claim c obtain i j where
    at: "fst (grid ?km ! i ! j) = ?outputs ! 14"
    and only: "\<forall>i' j'. i' < 2 ^ (length ?variables div 2) \<and>
        j' < 2 ^ (length ?variables - length ?variables div 2) \<and>
        parseInt2 (left_labels ?km ! i' @ top_labels ?km ! j') = Some (int 14) \<longrightarrow>
        i' = i \<and> j' = j"
    by blast
  have here: "parseInt2 (left_labels ?km ! 2 @ top_labels ?km ! 3) = Some (int 14)"
    unfolding left top using p by simp
  from only rows columns here have "2 = i \<and> 3 = j" by blast
  with at have "fst (grid ?km ! 2 ! 3) = ?outputs ! 14" by simp
  with shown have o: "?outputs ! 14 = one" by simp
  from a b rows columns g2 g3 left top p shown o show ?thesis by (intro conjI)
qed

text \<open>
  C9. The claim: for every \<open>k \<ge> 1\<close> and every \<open>i\<close> from 0 to \<open>2 ^ k - 2\<close>, \<^verbatim>\<open>gray(i)\<close> and
  \<^verbatim>\<open>gray(i + 1)\<close> differ in exactly one of their \<open>k\<close> bits. The operators \<^verbatim>\<open>^\<close> and \<^verbatim>\<open>>>\<close> work on
  32-bit integers: for \<open>k = 32\<close> and \<open>i = 2 ^ 31 - 1\<close> the two values are equal.
\<close>

theorem C9_gray_32_bits_counterexample:
  "gray 2147483647 = 1073741824 \<and> gray (2147483647 + 1) = 1073741824 \<and>
   differing_bits 32 (gray 2147483647) (gray (2147483647 + 1)) = []"
  by (simp add: gray_def to_int32_def differing_bits_def)

text \<open>
  C9, as the code has it. For every \<open>k\<close> from 1 to 31 the Gray codes of the numbers below
  \<open>2 ^ k\<close> are numbers of \<open>k\<close> bits; for every \<open>i\<close> from 0 to \<open>2 ^ k - 2\<close>, \<^verbatim>\<open>gray(i)\<close> and
  \<^verbatim>\<open>gray(i + 1)\<close> differ in exactly one of these \<open>k\<close> bits, and so do \<^verbatim>\<open>gray(2 ^ k - 1)\<close> and
  \<^verbatim>\<open>gray(0)\<close>.
\<close>

theorem C9_gray_neighbours_up_to_31_bits:
  assumes "1 \<le> k" and "k \<le> 31"
  shows "(\<forall>i. 0 \<le> i \<and> i \<le> 2 ^ k - 1 \<longrightarrow> 0 \<le> gray i \<and> gray i < 2 ^ k) \<and>
         (\<forall>i. 0 \<le> i \<and> i \<le> 2 ^ k - 2 \<longrightarrow>
            length (differing_bits k (gray i) (gray (i + 1))) = 1) \<and>
         length (differing_bits k (gray (2 ^ k - 1)) (gray 0)) = 1"
proof (intro conjI allI impI)
  fix i :: int
  assume i: "0 \<le> i \<and> i \<le> 2 ^ k - 1"
  then have "int (nat i) < 2 ^ k" by simp
  then have "nat i < 2 ^ k" by (metis of_nat_less_iff of_nat_numeral of_nat_power)
  from gray_range [OF this assms(2)] i show "0 \<le> gray i" and "gray i < 2 ^ k" by simp_all
next
  fix i :: int
  assume i: "0 \<le> i \<and> i \<le> 2 ^ k - 2"
  then have "int (Suc (nat i)) < 2 ^ k" by simp
  then have "Suc (nat i) < 2 ^ k" by (metis of_nat_less_iff of_nat_numeral of_nat_power)
  from gray_neighbours [OF this assms(2)] i
  show "length (differing_bits k (gray i) (gray (i + 1))) = 1" by simp
next
  from assms obtain k' where "k = Suc k'" "k' \<le> 30" by (cases k) auto
  with gray_wraps [of k'] show "length (differing_bits k (gray (2 ^ k - 1)) (gray 0)) = 1"
    by simp
qed

theorem C9_gray_neighbours_up_to_31_bits_witness:
  "(1::nat) \<le> 3 \<and> (3::nat) \<le> 31 \<and> (0::int) \<le> 2 \<and> (2::int) \<le> 2 ^ 3 - 2 \<and>
   0 \<le> gray 2 \<and> gray 2 < 2 ^ 3 \<and>
   length (differing_bits 3 (gray 2) (gray (2 + 1))) = 1 \<and>
   length (differing_bits 3 (gray (2 ^ 3 - 1)) (gray 0)) = 1"
proof -
  have a: "(1::nat) \<le> 3" and b: "(3::nat) \<le> 31" by simp_all
  note t = C9_gray_neighbours_up_to_31_bits [OF a b]
  from t have "(0::int) \<le> 2 \<and> (2::int) \<le> 2 ^ 3 - 1 \<longrightarrow> 0 \<le> gray 2 \<and> gray 2 < 2 ^ 3"
    by blast
  then have r: "0 \<le> gray 2 \<and> gray 2 < 2 ^ 3" by simp
  from t have "(0::int) \<le> 2 \<and> (2::int) \<le> 2 ^ 3 - 2 \<longrightarrow>
      length (differing_bits 3 (gray 2) (gray (2 + 1))) = 1"
    by blast
  then have "length (differing_bits 3 (gray 2) (gray (2 + 1))) = 1" by simp
  moreover from t have "length (differing_bits 3 (gray (2 ^ 3 - 1)) (gray 0)) = 1" by blast
  ultimately show ?thesis using r by simp
qed

text \<open>
  C10. \<^verbatim>\<open>createTruthTable\<close> appends the label \<^verbatim>\<open>Q\<close> to the array of variables it receives,
  which is the array of its caller. In \<^verbatim>\<open>newExpression\<close> the Karnaugh map is built before
  that, from the distinct variable names alone, while the variables afterwards end in
  \<^verbatim>\<open>Q\<close>. Built after \<^verbatim>\<open>createTruthTable\<close> from the same array, the map would have \<^verbatim>\<open>Q\<close> as
  the last member of its horizontal group and at the end of its corner label.
\<close>

theorem C10_label_pushed_after_map:
  "cells (snd (createTruthTable h inputs outputs v)) v = cells h v @ [Str label_Q] \<and>
   (newExpression text = Inr p \<longrightarrow>
      page_variables p =
        map Str (distinct_first (filter strRegex_test (page_tokens p))) @ [Str label_Q] \<and>
      page_karnaugh p =
        createKarnaughMap (page_outputs p)
          (map Str (distinct_first (filter strRegex_test (page_tokens p))))) \<and>
   horizontal_group (cells (snd (createTruthTable h inputs outputs v)) v) =
     drop (Suc (length (cells h v)) div 2) (cells h v) @ [Str label_Q] \<and>
   corner (createKarnaughMap outputs' (cells (snd (createTruthTable h inputs outputs v)) v)) =
     join (take (Suc (length (cells h v)) div 2) (cells h v)) @ [92] @
     join (drop (Suc (length (cells h v)) div 2) (cells h v)) @ label_Q"
proof -
  have "corner (createKarnaughMap outputs' (cells h v @ [Str label_Q])) =
     join (take (Suc (length (cells h v)) div 2) (cells h v)) @ [92] @
     join (drop (Suc (length (cells h v)) div 2) (cells h v)) @ label_Q"
    by (simp add: createKarnaughMap_def Let_def horizontal_group_last vertical_group_last
        join_def)
  then show ?thesis
    using createTruthTable_pushes(1) [of h inputs outputs v] newExpression_order [of "text" p]
      horizontal_group_last [of "cells h v" "Str label_Q"]
    by simp
qed

theorem C10_label_pushed_after_map_witness:
  "\<exists>p. newExpression (ascii ''A>B'') = Inr p \<and>
       page_variables p = [Str var_A, Str var_B, Str label_Q] \<and>
       page_karnaugh p = createKarnaughMap [one, zero, one, one] [Str var_A, Str var_B] \<and>
       corner (page_karnaugh p) = var_A @ [92] @ var_B \<and>
       corner (createKarnaughMap [one, zero, one, one] (page_variables p)) =
         var_A @ [92] @ var_B @ label_Q"
proof -
  let ?h = "\<lparr>cells = (\<lambda>r. [Str var_A, Str var_B]), lim = 1\<rparr>"
  from newExpression_steps
    [OF tokenize_imply postfix_imply variables_imply inputs_imply outputs_imply]
  obtain p where p: "newExpression (ascii ''A>B'') = Inr p"
    and t: "page_tokens p = [var_A, sym_imply, var_B]"
    and out: "page_outputs p = [one, zero, one, one]"
    by simp
  from C10_label_pushed_after_map [of ?h "[]" "[]" 0 "ascii ''A>B''" p "[one, zero, one, one]"]
    p t out variables_imply
  have "page_variables p = [Str var_A, Str var_B, Str label_Q]"
    and "page_karnaugh p = createKarnaughMap [one, zero, one, one] [Str var_A, Str var_B]"
    and "corner (createKarnaughMap [one, zero, one, one] [Str var_A, Str var_B, Str label_Q]) =
         var_A @ [92] @ var_B @ label_Q"
    by (simp_all add: createTruthTable_def push_def join_def Let_def)
  moreover have "corner (createKarnaughMap [one, zero, one, one] [Str var_A, Str var_B]) =
      var_A @ [92] @ var_B"
    by (simp add: createKarnaughMap_def Let_def vertical_group_def horizontal_group_def join_def)
  ultimately show ?thesis using p by simp
qed

end
